theory Spec2Isabelle
  imports Complex_Main "HOL-Library.Sublist" "HOL-Library.Char_ord" "HOL-Library.List_Lexorder"
    "HOL-Library.Log_Nat"
begin

section \<open>Python strings\<close>

text \<open>
  A Python \<open>str\<close> is modelled as a \<open>string\<close> whose characters are the code points
  below 256 (Latin-1). The classes below are Python's \<open>str.isspace\<close> (also the regular
  expression class \<open>\s\<close>) and the regular expression class \<open>\w\<close> (alphanumeric or
  underscore) on that range.
\<close>

datatype error = FileNotFoundError | OSError | TypeError | FormatError | AuthoringError

definition isspace :: "char \<Rightarrow> bool" where
  "isspace c \<longleftrightarrow> c \<in> set [CHR 0x09, CHR 0x0A, CHR 0x0B, CHR 0x0C, CHR 0x0D,
     CHR 0x1C, CHR 0x1D, CHR 0x1E, CHR 0x1F, CHR 0x20, CHR 0x85, CHR 0xA0]"

definition isword :: "char \<Rightarrow> bool" where
  "isword c \<longleftrightarrow>
     (CHR ''0'' \<le> c \<and> c \<le> CHR ''9'') \<or> (CHR ''A'' \<le> c \<and> c \<le> CHR ''Z'') \<or>
     (CHR ''a'' \<le> c \<and> c \<le> CHR ''z'') \<or> c = CHR ''_'' \<or>
     c \<in> set [CHR 0xAA, CHR 0xB2, CHR 0xB3, CHR 0xB5, CHR 0xB9, CHR 0xBA, CHR 0xBC, CHR 0xBD, CHR 0xBE] \<or>
     (CHR 0xC0 \<le> c \<and> c \<le> CHR 0xD6) \<or> (CHR 0xD8 \<le> c \<and> c \<le> CHR 0xF6) \<or> CHR 0xF8 \<le> c"

definition ascii_letter :: "char \<Rightarrow> bool" where
  "ascii_letter c \<longleftrightarrow>
     (CHR ''A'' \<le> c \<and> c \<le> CHR ''Z'') \<or> (CHR ''a'' \<le> c \<and> c \<le> CHR ''z'')"

text \<open>\<open>str.lower\<close>: the upper-case letters of Latin-1 are A-Z and 0xC0-0xDE without 0xD7;
  the lower-case letter is 32 higher, which sets bit 5.\<close>

definition lower_char :: "char \<Rightarrow> char" where
  "lower_char c =
     (if (CHR ''A'' \<le> c \<and> c \<le> CHR ''Z'') \<or> (CHR 0xC0 \<le> c \<and> c \<le> CHR 0xDE \<and> c \<noteq> CHR 0xD7)
      then (case c of Char b0 b1 b2 b3 b4 b5 b6 b7 \<Rightarrow> Char b0 b1 b2 b3 b4 True b6 b7)
      else c)"

definition lower :: "string \<Rightarrow> string" where
  "lower s = map lower_char s"

text \<open>\<open>s.strip()\<close>\<close>

definition strip :: "string \<Rightarrow> string" where
  "strip s = rev (dropWhile isspace (rev (dropWhile isspace s)))"

text \<open>\<open>s.split()\<close>: the maximal runs of characters that are not whitespace.\<close>

fun split_ws_acc :: "string \<Rightarrow> string \<Rightarrow> string list" where
  "split_ws_acc acc [] = (if acc = [] then [] else [rev acc])"
| "split_ws_acc acc (c # cs) =
     (if isspace c
      then (if acc = [] then split_ws_acc [] cs else rev acc # split_ws_acc [] cs)
      else split_ws_acc (c # acc) cs)"

definition split_ws :: "string \<Rightarrow> string list" where
  "split_ws s = split_ws_acc [] s"

text \<open>\<open>s.split(sep)\<close> for a separator that is not empty (every call in the source passes
  a literal): the pieces between the occurrences of \<open>sep\<close>, found from left to right
  without overlap.\<close>

fun split_sep_acc :: "string \<Rightarrow> string \<Rightarrow> string \<Rightarrow> string list" where
  "split_sep_acc sep acc [] = [rev acc]"
| "split_sep_acc sep acc (c # cs) =
     (if prefix sep (c # cs)
      then rev acc # split_sep_acc sep [] (drop (length sep - 1) cs)
      else split_sep_acc sep (c # acc) cs)"

definition split_sep :: "string \<Rightarrow> string \<Rightarrow> string list" where
  "split_sep sep s = split_sep_acc sep [] s"

text \<open>\<open>sep.join(xs)\<close>\<close>

fun join :: "string \<Rightarrow> string list \<Rightarrow> string" where
  "join sep [] = []"
| "join sep [x] = x"
| "join sep (x # y # ys) = x @ sep @ join sep (y # ys)"

text \<open>\<open>s.replace(old, new)\<close> for \<open>old\<close> not empty.\<close>

fun replace :: "string \<Rightarrow> string \<Rightarrow> string \<Rightarrow> string" where
  "replace old new [] = []"
| "replace old new (c # cs) =
     (if prefix old (c # cs)
      then new @ replace old new (drop (length old - 1) cs)
      else c # replace old new cs)"

text \<open>\<open>w in s\<close> on strings: \<open>w\<close> occurs in \<open>s\<close> as a substring.\<close>

fun str_in :: "string \<Rightarrow> string \<Rightarrow> bool" where
  "str_in w [] = (w = [])"
| "str_in w (c # cs) = (prefix w (c # cs) \<or> str_in w cs)"

text \<open>\<open>s.endswith((".", "!", "?"))\<close>\<close>

definition ends_terminal :: "string \<Rightarrow> bool" where
  "ends_terminal s \<longleftrightarrow> s \<noteq> [] \<and> last s \<in> set [CHR ''.'', CHR ''!'', CHR ''?'']"

text \<open>Decimal rendering of an integer, and the format specifications \<open>{n}\<close>,
  \<open>{n:02d}\<close>, \<open>{n:03d}\<close>: zero padding up to a minimal width that counts the sign.\<close>

definition digit_char :: "nat \<Rightarrow> char" where
  "digit_char n = ''0123456789'' ! n"

fun digits :: "nat \<Rightarrow> string" where
  "digits n = (if n < 10 then [digit_char n]
               else digits (n div 10) @ [digit_char (n mod 10)])"

declare digits.simps [simp del]

definition zfill :: "nat \<Rightarrow> string \<Rightarrow> string" where
  "zfill w s = replicate (w - length s) CHR ''0'' @ s"

definition fmt_d :: "nat \<Rightarrow> int \<Rightarrow> string" where
  "fmt_d w i = (if i < 0 then CHR ''-'' # zfill (w - 1) (digits (nat (- i)))
                else zfill w (digits (nat i)))"

section \<open>Files\<close>

text \<open>
  The files the program reads and writes: a map from paths to contents, and the paths
  that cannot be opened for writing. Opening a file for writing truncates it. Text mode
  is the one of a POSIX system: writing leaves line ends alone, reading turns
  \<open>\r\n\<close> and \<open>\r\<close> into \<open>\n\<close> (universal newlines).
\<close>

record filesystem =
  files :: "string \<rightharpoonup> string"
  unwritable :: "string set"

definition write_text :: "filesystem \<Rightarrow> string \<Rightarrow> string \<Rightarrow> error + filesystem" where
  "write_text fs path content =
     (if path \<in> unwritable fs then Inl OSError
      else Inr (fs\<lparr>files := (files fs)(path \<mapsto> content)\<rparr>))"

fun universal_newlines :: "string \<Rightarrow> string" where
  "universal_newlines [] = []"
| "universal_newlines (c # cs) =
     (if c = CHR 0x0D
      then (case cs of
              [] \<Rightarrow> [CHR 0x0A]
            | d # ds \<Rightarrow> if d = CHR 0x0A then CHR 0x0A # universal_newlines ds
                        else CHR 0x0A # universal_newlines cs)
      else c # universal_newlines cs)"

section \<open>Subtitle codec (transcriber.py)\<close>

record segment =
  seg_start :: rat
  seg_end :: rat
  seg_text :: string

text \<open>
  Seconds are Python floats: IEEE-754 binary64 numbers. A finite float is the rational
  number it denotes, and an arithmetic operation on floats is the exact operation
  followed by \<open>round_double\<close>, the rounding to the nearest float with ties to the even
  significand. The floats around \<open>x\<close> are the multiples of \<open>2 powi ulp_exp x\<close>:
  53 significant bits in the binade of \<open>x\<close>, which \<open>ilog2\<close> finds, and a fixed spacing
  of \<open>2 powi - 1074\<close> in the subnormal range. \<open>is_double\<close> holds of the rationals that
  are floats. Overflow to infinity is not modelled: no operation of the codec can
  overflow on a finite float.
\<close>

definition round_half_even :: "rat \<Rightarrow> int" where
  "round_half_even y =
     (let f = \<lfloor>y\<rfloor>; d = y - of_int f
      in if d < 1 / 2 then f else if 1 / 2 < d then f + 1 else if even f then f else f + 1)"

definition ilog2 :: "rat \<Rightarrow> int" where
  "ilog2 x = (case quotient_of x of (a, b) \<Rightarrow>
     (let k = bitlen a - bitlen b in if 2 powi k \<le> x then k else k - 1))"

definition ulp_exp :: "rat \<Rightarrow> int" where
  "ulp_exp x = max (ilog2 \<bar>x\<bar>) (- 1022) - 52"

definition round_double :: "rat \<Rightarrow> rat" where
  "round_double x =
     (if x = 0 then 0
      else of_int (round_half_even (x / 2 powi ulp_exp x)) * 2 powi ulp_exp x)"

definition is_double :: "rat \<Rightarrow> bool" where
  "is_double x \<longleftrightarrow> round_double x = x"

definition float_add :: "rat \<Rightarrow> rat \<Rightarrow> rat" where
  "float_add x y = round_double (x + y)"

definition float_sub :: "rat \<Rightarrow> rat \<Rightarrow> rat" where
  "float_sub x y = round_double (x - y)"

definition float_mul :: "rat \<Rightarrow> rat \<Rightarrow> rat" where
  "float_mul x y = round_double (x * y)"

definition float_div :: "rat \<Rightarrow> rat \<Rightarrow> rat" where
  "float_div x y = round_double (x / y)"

text \<open>\<open>int(x)\<close> truncates towards zero; an \<open>int\<close> operand of a float operation is first
  converted to the nearest float.\<close>

definition py_int :: "rat \<Rightarrow> int" where
  "py_int x = (if 0 \<le> x then \<lfloor>x\<rfloor> else \<lceil>x\<rceil>)"

definition int_to_float :: "int \<Rightarrow> rat" where
  "int_to_float n = round_double (of_int n)"

text \<open>
  \<open>x // y\<close> and \<open>x % y\<close> on floats, as the interpreter computes them (CPython,
  \<open>floatobject.c\<close>, \<open>_float_div_mod\<close> and \<open>float_rem\<close>), for a divisor that is not zero.
  C's \<open>fmod\<close> is exact and has the sign of the dividend; the remainder gets the sign
  of the divisor; the quotient \<open>(vx - mod) / wx\<close> is computed in floats and snapped to
  the nearest whole number.
\<close>

definition fmod :: "rat \<Rightarrow> rat \<Rightarrow> rat" where
  "fmod x y = x - of_int (py_int (x / y)) * y"

definition float_divmod :: "rat \<Rightarrow> rat \<Rightarrow> rat \<times> rat" where
  "float_divmod vx wx =
     (let m = fmod vx wx;
          d = float_div (float_sub vx m) wx;
          adjust = (m \<noteq> 0 \<and> (wx < 0) \<noteq> (m < 0));
          m' = (if adjust then float_add m wx else m);
          d' = (if adjust then float_sub d 1 else d);
          floordiv = (if d' \<noteq> 0
                      then (let f = of_int \<lfloor>d'\<rfloor>
                            in if 1 / 2 < float_sub d' f then float_add f 1 else f)
                      else 0)
      in (floordiv, m'))"

definition float_floordiv :: "rat \<Rightarrow> rat \<Rightarrow> rat" where
  "float_floordiv vx wx = fst (float_divmod vx wx)"

definition float_rem :: "rat \<Rightarrow> rat \<Rightarrow> rat" where
  "float_rem vx wx =
     (let m = fmod vx wx
      in if m \<noteq> 0 \<and> (wx < 0) \<noteq> (m < 0) then float_add m wx else m)"

definition seconds_to_srt_time :: "rat \<Rightarrow> string" where
  "seconds_to_srt_time seconds =
     (let hours = py_int (float_floordiv seconds 3600);
          minutes = py_int (float_floordiv (float_rem seconds 3600) 60);
          secs = py_int (float_rem seconds 60);
          milliseconds = py_int (float_mul (float_sub seconds (int_to_float (py_int seconds))) 1000)
      in fmt_d 2 hours @ '':'' @ fmt_d 2 minutes @ '':'' @ fmt_d 2 secs @ '','' @ fmt_d 3 milliseconds)"

text \<open>The loop of \<open>_write_srt_from_segments\<close>: \<open>i\<close> is the counter of
  \<open>enumerate(segments, 1)\<close>, the result is what the loop writes.\<close>

fun srt_blocks :: "nat \<Rightarrow> segment list \<Rightarrow> string" where
  "srt_blocks i [] = []"
| "srt_blocks i (seg # segs) =
     (let start_time = seconds_to_srt_time (seg_start seg);
          end_time = seconds_to_srt_time (seg_end seg);
          text = strip (seg_text seg)
      in if text = [] then srt_blocks (Suc i) segs
         else (digits i @ [CHR 0x0A] @
               start_time @ '' --> '' @ end_time @ [CHR 0x0A] @
               text @ [CHR 0x0A, CHR 0x0A]) @ srt_blocks (Suc i) segs)"

definition write_srt_from_segments ::
  "filesystem \<Rightarrow> segment list \<Rightarrow> string \<Rightarrow> error + filesystem" where
  "write_srt_from_segments fs segments srt_path = write_text fs srt_path (srt_blocks 1 segments)"

text \<open>The loop of \<open>extract_text_from_srt\<close> over the blocks.\<close>

fun srt_text_lines :: "string list \<Rightarrow> string list" where
  "srt_text_lines [] = []"
| "srt_text_lines (block # blocks) =
     (let lines = split_sep [CHR 0x0A] (strip block)
      in if length lines \<ge> 3 then join [CHR 0x0A] (drop 2 lines) # srt_text_lines blocks
         else srt_text_lines blocks)"

definition srt_text :: "string \<Rightarrow> string" where
  "srt_text content =
     (if strip content = [] then []
      else join '' '' (srt_text_lines (split_sep [CHR 0x0A, CHR 0x0A] (strip content))))"

definition extract_text_from_srt :: "filesystem \<Rightarrow> string \<Rightarrow> error + string" where
  "extract_text_from_srt fs srt_path =
     (case files fs srt_path of
        None \<Rightarrow> Inl FileNotFoundError
      | Some raw \<Rightarrow> Inr (srt_text (universal_newlines raw)))"

section \<open>Regular expression substitutions\<close>

text \<open>
  The substitutions of the source, each as the function \<open>re.sub\<close> computes with that
  pattern: a scan from left to right that replaces every match and copies the rest.
\<close>

text \<open>\<open>re.sub(r"\s+", " ", text)\<close>: every maximal run of whitespace becomes one space.\<close>

function sub_whitespace :: "string \<Rightarrow> string" where
  "sub_whitespace [] = []"
| "sub_whitespace (c # cs) =
     (if isspace c then CHR '' '' # sub_whitespace (dropWhile isspace cs)
      else c # sub_whitespace cs)"
  by pat_completeness auto
termination
  by (relation "measure length") (auto simp: length_dropWhile_le less_Suc_eq_le)

text \<open>\<open>re.sub(r"\b(\w)\1{2,}\b", r"\1\1", text)\<close>: between two word boundaries the pattern
  covers a whole run of word characters, which matches when it is one character three
  or more times.\<close>

function sub_repeated :: "string \<Rightarrow> string" where
  "sub_repeated [] = []"
| "sub_repeated (c # cs) =
     (if isword c
      then (let run = c # takeWhile isword cs
            in (if length run \<ge> 3 \<and> list_all (\<lambda>x. x = c) run then [c, c] else run) @
               sub_repeated (dropWhile isword cs))
      else c # sub_repeated cs)"
  by pat_completeness auto
termination
  by (relation "measure length") (auto simp: length_dropWhile_le less_Suc_eq_le)

text \<open>\<open>re.sub(r"\b[a-zA-Z]\b", "", text)\<close>: a run of word characters that is a single
  ASCII letter is removed.\<close>

function sub_single_letters :: "string \<Rightarrow> string" where
  "sub_single_letters [] = []"
| "sub_single_letters (c # cs) =
     (if isword c
      then (let run = c # takeWhile isword cs
            in (if length run = 1 \<and> ascii_letter c then [] else run) @
               sub_single_letters (dropWhile isword cs))
      else c # sub_single_letters cs)"
  by pat_completeness auto
termination
  by (relation "measure length") (auto simp: length_dropWhile_le less_Suc_eq_le)

text \<open>\<open>re.sub(r"[,]{2,}", ",", text)\<close> and \<open>re.sub(r"[.]{2,}", ".", text)\<close>: a run of two
  or more of the character becomes one.\<close>

function squeeze :: "char \<Rightarrow> string \<Rightarrow> string" where
  "squeeze x [] = []"
| "squeeze x (c # cs) =
     (if c = x then x # squeeze x (dropWhile (\<lambda>y. y = x) cs)
      else c # squeeze x cs)"
  by pat_completeness auto
termination
  by (relation "measure (\<lambda>(x, s). length s)") (auto simp: length_dropWhile_le less_Suc_eq_le)

text \<open>The assertion \<open>\b\<close>: the characters before and after the position differ in being
  word characters; a missing character is not one.\<close>

definition word_boundary :: "bool \<Rightarrow> string \<Rightarrow> bool" where
  "word_boundary prev_word s = (prev_word \<noteq> (case s of [] \<Rightarrow> False | c # _ \<Rightarrow> isword c))"

text \<open>\<open>(p1|p2|...)\b\<close> with \<open>re.IGNORECASE\<close> at the head of \<open>s\<close>: the first alternative
  that matches there and is followed by a word boundary.\<close>

fun match_alt :: "string list \<Rightarrow> string \<Rightarrow> string option" where
  "match_alt [] s = None"
| "match_alt (p # ps) s =
     (if p \<noteq> [] \<and> prefix (lower p) (lower s) \<and>
         word_boundary (isword (last (take (length p) s))) (drop (length p) s)
      then Some p else match_alt ps s)"

text \<open>\<open>re.sub(r"\b(p1|p2|...)\b", repl, text, flags=re.IGNORECASE)\<close>, where \<open>repl\<close> is
  given as a function of the matched text. \<open>prev_word\<close> tells whether the character
  before the position is a word character.\<close>

fun sub_words :: "string list \<Rightarrow> (string \<Rightarrow> string) \<Rightarrow> bool \<Rightarrow> string \<Rightarrow> string" where
  "sub_words alts repl prev_word [] = []"
| "sub_words alts repl prev_word (c # cs) =
     (case (if word_boundary prev_word (c # cs) then match_alt alts (c # cs) else None) of
        Some p \<Rightarrow>
          repl (take (length p) (c # cs)) @
          sub_words alts repl (isword (last (take (length p) (c # cs)))) (drop (length p - 1) cs)
      | None \<Rightarrow> c # sub_words alts repl (isword c) cs)"

section \<open>Transcript normalizer (text_processor.py)\<close>

text \<open>
  The NLTK functions and data the class uses are parameters: the sentence tokenizer, the
  word tokenizer and the English stop word list.
\<close>

record nltk =
  sent_tokenize :: "string \<Rightarrow> string list"
  word_tokenize :: "string \<Rightarrow> string list"
  stopwords_english :: "string list"

definition academic_stopwords :: "string list" where
  "academic_stopwords = [''um'', ''uh'', ''ah'', ''er'', ''you know'', ''like'', ''so'', ''okay'',
     ''alright'', ''well'', ''now'', ''today'', ''here'']"

definition stop_words :: "nltk \<Rightarrow> string set" where
  "stop_words nl = set (stopwords_english nl) \<union> set academic_stopwords"

text \<open>\<open>string.punctuation\<close>: the ASCII characters 0x21-0x2F, 0x3A-0x40, 0x5B-0x60 and
  0x7B-0x7E, in this order.\<close>

definition punctuation :: string where
  "punctuation = [CHR 0x21, CHR 0x22, CHR 0x23, CHR 0x24, CHR 0x25, CHR 0x26, CHR 0x27, CHR 0x28,
     CHR 0x29, CHR 0x2A, CHR 0x2B, CHR 0x2C, CHR 0x2D, CHR 0x2E, CHR 0x2F,
     CHR 0x3A, CHR 0x3B, CHR 0x3C, CHR 0x3D, CHR 0x3E, CHR 0x3F, CHR 0x40,
     CHR 0x5B, CHR 0x5C, CHR 0x5D, CHR 0x5E, CHR 0x5F, CHR 0x60,
     CHR 0x7B, CHR 0x7C, CHR 0x7D, CHR 0x7E]"

definition clean_text :: "string \<Rightarrow> string" where
  "clean_text text =
     strip (squeeze CHR ''.'' (squeeze CHR '','' (sub_single_letters (sub_repeated (sub_whitespace text)))))"

definition filler_patterns :: "string list list" where
  "filler_patterns = [ [''um'', ''uh'', ''ah'', ''er''], [''you know''], [''I mean''], [''basically''],
     [''actually''], [''okay so''], [''alright so''], [''so um''] ]"

definition remove_fillers :: "string \<Rightarrow> string" where
  "remove_fillers text =
     strip (sub_whitespace (fold (\<lambda>pattern t. sub_words pattern (\<lambda>m. []) False t) filler_patterns text))"

text \<open>\<open>w not in string.punctuation\<close> is a substring test, as in the source.\<close>

definition content_words :: "nltk \<Rightarrow> string \<Rightarrow> string list" where
  "content_words nl sentence =
     filter (\<lambda>w. w \<notin> stop_words nl \<and> \<not> str_in w punctuation) (word_tokenize nl (lower sentence))"

definition process_sentence :: "nltk \<Rightarrow> string \<Rightarrow> string option" where
  "process_sentence nl sentence =
     (if length (content_words nl sentence) < 2 then None
      else (let sentence = strip sentence
            in Some (if ends_terminal sentence then sentence else sentence @ ''.'')))"

text \<open>The loop of \<open>process_text\<close> over the sentences; \<open>if processed_sentence\<close> rejects
  \<open>None\<close> and the empty string.\<close>

fun process_sentences :: "nltk \<Rightarrow> string list \<Rightarrow> string list" where
  "process_sentences nl [] = []"
| "process_sentences nl (sentence # sentences) =
     (if length (split_ws sentence) < 3 then process_sentences nl sentences
      else (case process_sentence nl sentence of
              None \<Rightarrow> process_sentences nl sentences
            | Some processed_sentence \<Rightarrow>
                if processed_sentence = [] then process_sentences nl sentences
                else processed_sentence # process_sentences nl sentences))"

definition transition_words :: "string list" where
  "transition_words = [''now'', ''next'', ''moving on'', ''let'' @ [CHR 0x27] @ ''s'', ''another'',
     ''furthermore'', ''however'', ''on the other hand'', ''in contrast'', ''meanwhile'']"

definition is_topic_transition :: "string \<Rightarrow> string \<Rightarrow> bool" where
  "is_topic_transition current_sentence next_sentence =
     list_ex (\<lambda>word. str_in word (lower next_sentence)) transition_words"

text \<open>
  The loop of \<open>_create_paragraphs\<close>. A paragraph is kept as the list of its sentences
  and joined with spaces when the text is put together, where the source joins at the
  moment the paragraph is closed. \<open>rest = []\<close> is \<open>i == len(sentences) - 1\<close>.
\<close>

fun paragraphs_loop ::
  "string list list \<Rightarrow> string list \<Rightarrow> string list \<Rightarrow> string list list \<times> string list" where
  "paragraphs_loop paragraphs current_paragraph [] = (paragraphs, current_paragraph)"
| "paragraphs_loop paragraphs current_paragraph (sentence # rest) =
     (let current_paragraph = current_paragraph @ [sentence]
      in if length current_paragraph \<ge> 4 \<and>
            (rest = [] \<or> is_topic_transition sentence (case rest of [] \<Rightarrow> [] | n # _ \<Rightarrow> n))
         then paragraphs_loop (paragraphs @ [current_paragraph]) [] rest
         else paragraphs_loop paragraphs current_paragraph rest)"

definition paragraph_groups :: "string list \<Rightarrow> string list list" where
  "paragraph_groups sentences =
     (case paragraphs_loop [] [] sentences of
        (paragraphs, current_paragraph) \<Rightarrow>
          if current_paragraph \<noteq> [] then paragraphs @ [current_paragraph] else paragraphs)"

definition create_paragraphs :: "string list \<Rightarrow> string" where
  "create_paragraphs sentences =
     (if sentences = [] then []
      else join [CHR 0x0A, CHR 0x0A] (map (join '' '') (paragraph_groups sentences)))"

definition surviving_sentences :: "nltk \<Rightarrow> string \<Rightarrow> string list" where
  "surviving_sentences nl text = process_sentences nl (sent_tokenize nl (remove_fillers (clean_text text)))"

definition process_text :: "nltk \<Rightarrow> string \<Rightarrow> string" where
  "process_text nl text = create_paragraphs (surviving_sentences nl text)"

section \<open>Document generator (latex_generator.py)\<close>

text \<open>
  What the generator reads from outside: the two template files beside the module
  (\<open>None\<close> when the file cannot be read) and the date string of
  \<open>datetime.now().strftime("%B %d, %Y")\<close>.
\<close>

record resources =
  prompt_template :: "string option"
  latex_template :: "string option"
  today :: string

text \<open>
  One call of the authoring service, as \<open>_generate_with_deepseek\<close> sees it: an exception
  anywhere between the request and \<open>response.choices[0].message.content\<close>, or that
  content, which is a string or \<open>None\<close>. The client is a function of the system and the
  user message; \<open>self.client\<close> is \<open>None\<close> without an API key.
\<close>

datatype completion = Raises | Content "string option"

type_synonym client = "string \<Rightarrow> string \<Rightarrow> completion"

definition system_prompt :: string where
  "system_prompt = ''You are an expert at creating well-structured LaTeX documents from lecture transcripts. Create professional, academic notes with proper formatting.''"

definition create_prompt :: "resources \<Rightarrow> string \<Rightarrow> string \<Rightarrow> error + string" where
  "create_prompt res text title =
     (case prompt_template res of
        None \<Rightarrow> Inl OSError
      | Some template \<Rightarrow> Inr template)"

definition generate_with_deepseek :: "client \<Rightarrow> string \<Rightarrow> error + string option" where
  "generate_with_deepseek cl prompt =
     (case cl system_prompt prompt of
        Raises \<Rightarrow> Inl AuthoringError
      | Content c \<Rightarrow> Inr c)"

text \<open>
  \<open>template.format(**kw)\<close> for templates made of literal text, the escapes \<open>{{\<close> and
  \<open>}}\<close>, and replacement fields \<open>{name}\<close>. A field whose name is not a key of \<open>kw\<close>, a
  brace that is not closed and a single \<open>}\<close> raise. Fields with a conversion, a format
  specification, an attribute or an index are not modelled: they count as unknown names.
\<close>

function py_format :: "(string \<rightharpoonup> string) \<Rightarrow> string \<Rightarrow> error + string" where
  "py_format kw [] = Inr []"
| "py_format kw (c # cs) =
     (if c = CHR 0x7B then
        (if cs \<noteq> [] \<and> hd cs = CHR 0x7B
         then (case py_format kw (tl cs) of Inl e \<Rightarrow> Inl e | Inr r \<Rightarrow> Inr (CHR 0x7B # r))
         else (case dropWhile (\<lambda>x. x \<noteq> CHR 0x7D) cs of
                 [] \<Rightarrow> Inl FormatError
               | _ # rest \<Rightarrow>
                   (case kw (takeWhile (\<lambda>x. x \<noteq> CHR 0x7D) cs) of
                      None \<Rightarrow> Inl FormatError
                    | Some v \<Rightarrow>
                        (case py_format kw rest of Inl e \<Rightarrow> Inl e | Inr r \<Rightarrow> Inr (v @ r)))))
      else if c = CHR 0x7D then
        (if cs \<noteq> [] \<and> hd cs = CHR 0x7D
         then (case py_format kw (tl cs) of Inl e \<Rightarrow> Inl e | Inr r \<Rightarrow> Inr (CHR 0x7D # r))
         else Inl FormatError)
      else (case py_format kw cs of Inl e \<Rightarrow> Inl e | Inr r \<Rightarrow> Inr (c # r)))"
  by pat_completeness auto
termination
proof (relation "measure (\<lambda>(kw, s). length s)")
  fix kw :: "string \<rightharpoonup> string" and c :: char and cs x21 x22
  assume "dropWhile (\<lambda>x. x \<noteq> CHR 0x7D) cs = x21 # x22"
  then have "length (x21 # x22) \<le> length cs"
    by (metis length_dropWhile_le)
  then show "((kw, x22), kw, c # cs) \<in> measure (\<lambda>(kw, s). length s)"
    by simp
qed (auto simp: less_Suc_eq_le)

text \<open>The seven \<open>replace\<close> calls and the keyword substitution of
  \<open>_format_paragraph_for_latex\<close>; \<open>0x5C\<close> is the backslash.\<close>

definition escape_latex :: "string \<Rightarrow> string" where
  "escape_latex paragraph =
     replace ''}'' [CHR 0x5C, CHR ''}'']
       (replace ''{'' [CHR 0x5C, CHR ''{'']
         (replace ''_'' [CHR 0x5C, CHR ''_'']
           (replace ''#'' [CHR 0x5C, CHR ''#'']
             (replace ''$'' [CHR 0x5C, CHR ''$'']
               (replace ''%'' [CHR 0x5C, CHR ''%'']
                 (replace ''&'' [CHR 0x5C, CHR ''&''] paragraph))))))"

definition bold_keywords :: "string list" where
  "bold_keywords = [''definition'', ''theorem'', ''important'', ''key'', ''main'', ''primary'']"

definition textbf :: "string \<Rightarrow> string" where
  "textbf m = [CHR 0x5C] @ ''textbf{'' @ m @ ''}''"

definition format_paragraph_for_latex :: "string \<Rightarrow> string" where
  "format_paragraph_for_latex paragraph = sub_words bold_keywords textbf False (escape_latex paragraph)"

text \<open>The loop of \<open>_generate_template_notes\<close> that builds \<open>body\<close>; \<open>i\<close> is the counter of
  \<open>enumerate(paragraphs[:5], 1)\<close>.\<close>

fun template_body :: "nat \<Rightarrow> string list \<Rightarrow> string" where
  "template_body i [] = []"
| "template_body i (para # paras) =
     ([CHR 0x5C] @ ''section{Topic '' @ digits i @ ''}'' @ [CHR 0x0A] @
      format_paragraph_for_latex para @ [CHR 0x0A, CHR 0x0A]) @ template_body (Suc i) paras"

definition template_paragraphs :: "string \<Rightarrow> string list" where
  "template_paragraphs text =
     map strip (filter (\<lambda>p. strip p \<noteq> []) (split_sep [CHR 0x0A, CHR 0x0A] text))"

definition template_fields :: "string \<Rightarrow> string \<Rightarrow> string \<Rightarrow> (string \<rightharpoonup> string)" where
  "template_fields title date body = [''title'' \<mapsto> title, ''date'' \<mapsto> date, ''body'' \<mapsto> body]"

definition generate_template_notes :: "resources \<Rightarrow> string \<Rightarrow> string \<Rightarrow> error + string" where
  "generate_template_notes res text title =
     (case latex_template res of
        None \<Rightarrow> Inl OSError
      | Some template \<Rightarrow>
          (let paragraphs = template_paragraphs text;
               body = template_body 1 (take 5 paragraphs)
           in py_format (template_fields title (today res) body) template))"

text \<open>
  The \<open>try\<close> block of \<open>generate_notes\<close>: the result is the file system after the write,
  or the exception together with the file system at the moment it is raised. Writing
  \<open>None\<close> raises after the file has been opened, which leaves it empty.
\<close>

definition generate_notes_try ::
  "resources \<Rightarrow> client option \<Rightarrow> filesystem \<Rightarrow> string \<Rightarrow> string \<Rightarrow> string \<Rightarrow> string \<Rightarrow>
   (error \<times> filesystem) + filesystem" where
  "generate_notes_try res cl fs prompt processed_text output_path title =
     (case (case cl of
              Some c \<Rightarrow> generate_with_deepseek c prompt
            | None \<Rightarrow> map_sum id Some (generate_template_notes res processed_text title)) of
        Inl e \<Rightarrow> Inl (e, fs)
      | Inr latex_content \<Rightarrow>
          (if output_path \<in> unwritable fs then Inl (OSError, fs)
           else (case latex_content of
                   None \<Rightarrow> Inl (TypeError, fs\<lparr>files := (files fs)(output_path \<mapsto> [])\<rparr>)
                 | Some doc \<Rightarrow> Inr (fs\<lparr>files := (files fs)(output_path \<mapsto> doc)\<rparr>))))"

definition generate_notes ::
  "resources \<Rightarrow> client option \<Rightarrow> filesystem \<Rightarrow> string \<Rightarrow> string \<Rightarrow> string \<Rightarrow> error + filesystem" where
  "generate_notes res cl fs processed_text output_path title =
     (case create_prompt res processed_text title of
        Inl e \<Rightarrow> Inl e
      | Inr prompt \<Rightarrow>
          (case generate_notes_try res cl fs prompt processed_text output_path title of
             Inr fs' \<Rightarrow> Inr fs'
           | Inl (e, fs1) \<Rightarrow>
               (case generate_template_notes res processed_text title of
                  Inl e' \<Rightarrow> Inl e'
                | Inr latex_content \<Rightarrow> write_text fs1 output_path latex_content)))"

section \<open>Auxiliary definitions\<close>

text \<open>The paragraphs that the loop of \<open>_create_paragraphs\<close> produces from a buffer and the
  sentences still to come, final paragraph included, as a recursion on the sentences.\<close>

fun groups_from :: "string list \<Rightarrow> string list \<Rightarrow> string list list" where
  "groups_from cur [] = (if cur = [] then [] else [cur])"
| "groups_from cur (s # rest) =
     (if length (cur @ [s]) \<ge> 4 \<and>
         (rest = [] \<or> is_topic_transition s (case rest of [] \<Rightarrow> [] | n # _ \<Rightarrow> n))
      then (cur @ [s]) # groups_from [] rest
      else groups_from (cur @ [s]) rest)"

text \<open>
  A plain pair of tokenizers and a short list of English stop words, to run the
  normalizer on examples: a sentence ends at \<open>.\<close>, \<open>!\<close> or \<open>?\<close> before whitespace or the
  end of the text; a word is a run of word characters, and every other character that
  is not whitespace is a token of its own.
\<close>

fun plain_sentences :: "string \<Rightarrow> string \<Rightarrow> string list" where
  "plain_sentences acc [] = (if strip (rev acc) = [] then [] else [strip (rev acc)])"
| "plain_sentences acc (c # cs) =
     (if c \<in> set ''.!?'' \<and> (cs = [] \<or> isspace (hd cs))
      then strip (rev (c # acc)) # plain_sentences [] cs
      else plain_sentences (c # acc) cs)"

fun plain_words :: "string \<Rightarrow> string \<Rightarrow> string list" where
  "plain_words acc [] = (if acc = [] then [] else [rev acc])"
| "plain_words acc (c # cs) =
     (if isword c then plain_words (c # acc) cs
      else (if acc = [] then [] else [rev acc]) @ (if isspace c then [] else [ [c] ]) @
           plain_words [] cs)"

definition plain_nltk :: nltk where
  "plain_nltk = \<lparr>sent_tokenize = plain_sentences [], word_tokenize = plain_words [],
     stopwords_english = [''i'', ''me'', ''my'', ''we'', ''you'', ''he'', ''she'', ''it'', ''the'', ''a'',
       ''an'', ''and'', ''is'', ''are'', ''was'', ''be'', ''to'', ''of'', ''in'', ''on'', ''down'', ''up'',
       ''this'', ''that'']\<rparr>"

text \<open>
  The same tokenizers with a word tokenizer that splits at whitespace only, so that a run
  of punctuation characters between spaces is one token, as \<open>--\<close> is for NLTK's word
  tokenizer.
\<close>

definition spaced_nltk :: nltk where
  "spaced_nltk = plain_nltk\<lparr>word_tokenize := split_ws\<rparr>"

text \<open>
  The content words in the words of the specification: the lowercased tokens that are
  neither punctuation (a token made of punctuation characters only) nor in the stop
  word set.
\<close>

definition punctuation_token :: "string \<Rightarrow> bool" where
  "punctuation_token w \<longleftrightarrow> list_all (\<lambda>c. c \<in> set punctuation) w"

definition spec_content_words :: "nltk \<Rightarrow> string \<Rightarrow> string list" where
  "spec_content_words nl sentence =
     filter (\<lambda>w. \<not> punctuation_token w \<and> w \<notin> stop_words nl) (word_tokenize nl (lower sentence))"

text \<open>The content of a path after a call that returns the file system or an error, and
  two authoring clients and a file system for examples.\<close>

fun file_after :: "error + filesystem \<Rightarrow> string \<Rightarrow> error + string option" where
  "file_after (Inl e) path = Inl e"
| "file_after (Inr fs) path = Inr (files fs path)"

definition silent_client :: client where
  "silent_client sys user = Content (Some [])"

definition failing_client :: client where
  "failing_client sys user = Raises"

definition empty_filesystem :: filesystem where
  "empty_filesystem = \<lparr>files = Map.empty, unwritable = {}\<rparr>"

text \<open>Encoding segments to a subtitle file and decoding that file, as the pipeline does.\<close>

definition srt_roundtrip :: "filesystem \<Rightarrow> segment list \<Rightarrow> string \<Rightarrow> error + string" where
  "srt_roundtrip fs segments srt_path =
     (case write_srt_from_segments fs segments srt_path of
        Inl e \<Rightarrow> Inl e
      | Inr fs' \<Rightarrow> extract_text_from_srt fs' srt_path)"

text \<open>The blocks that the encoder writes, as triples of index line, timecode line and
  text.\<close>

fun srt_entries :: "nat \<Rightarrow> segment list \<Rightarrow> (string \<times> string \<times> string) list" where
  "srt_entries i [] = []"
| "srt_entries i (seg # segs) =
     (if strip (seg_text seg) = [] then srt_entries (Suc i) segs
      else (digits i,
            seconds_to_srt_time (seg_start seg) @ '' --> '' @ seconds_to_srt_time (seg_end seg),
            strip (seg_text seg)) # srt_entries (Suc i) segs)"

definition srt_block :: "string \<times> string \<times> string \<Rightarrow> string" where
  "srt_block e = (case e of (idx, tc, text) \<Rightarrow> idx @ [CHR 0x0A] @ tc @ [CHR 0x0A] @ text)"

text \<open>The shape of a block that decodes back to its text: index and timecode lines
  without line ends, a text that is trimmed and not empty, with no blank line and no
  carriage return.\<close>

definition good_entry :: "string \<times> string \<times> string \<Rightarrow> bool" where
  "good_entry e = (case e of (idx, tc, text) \<Rightarrow>
     idx \<noteq> [] \<and> \<not> isspace (hd idx) \<and> CHR 0x0A \<notin> set idx \<and> CHR 0x0D \<notin> set idx \<and>
     tc \<noteq> [] \<and> CHR 0x0A \<notin> set tc \<and> CHR 0x0D \<notin> set tc \<and>
     text \<noteq> [] \<and> \<not> isspace (hd text) \<and> \<not> isspace (last text) \<and>
     \<not> sublist [CHR 0x0A, CHR 0x0A] text \<and> CHR 0x0D \<notin> set text)"

text \<open>The characters of the decimal digits, and those the index and timecode lines of a
  block are made of.\<close>

definition digit_chars :: "char set" where
  "digit_chars = set ''0123456789''"

definition timecode_chars :: "char set" where
  "timecode_chars = set ''-0123456789:, >''"

text \<open>
  The template fallback in the words of the specification: a character is escaped on its
  own when it is one of the seven reserved ones; a text is read as its maximal runs of
  word characters and the single characters between them, and a run that is a keyword,
  whatever its case, is wrapped in bold markup.
\<close>

definition escape_char :: "char \<Rightarrow> string" where
  "escape_char c = (if c \<in> set ''&%$#_{}'' then [CHR 0x5C, c] else [c])"

function word_runs :: "string \<Rightarrow> string list" where
  "word_runs [] = []"
| "word_runs (c # cs) =
     (if isword c then (c # takeWhile isword cs) # word_runs (dropWhile isword cs)
      else [c] # word_runs cs)"
  by pat_completeness auto
termination
  by (relation "measure length") (auto simp: length_dropWhile_le less_Suc_eq_le)

definition emphasize :: "string \<Rightarrow> string" where
  "emphasize s = concat (map (\<lambda>r. if lower r \<in> set bold_keywords then textbf r else r) (word_runs s))"

definition lowercase_letter :: "char \<Rightarrow> bool" where
  "lowercase_letter c \<longleftrightarrow> CHR ''a'' \<le> c \<and> c \<le> CHR ''z''"

section \<open>Paragraph assembly\<close>

lemma paragraphs_loop_acc:
  "paragraphs_loop ps cur ss =
     (ps @ fst (paragraphs_loop [] cur ss), snd (paragraphs_loop [] cur ss))"
proof (induction ss arbitrary: ps cur)
  case Nil
  show ?case by simp
next
  case (Cons s rest)
  show ?case
  proof (cases "length (cur @ [s]) \<ge> 4 \<and>
      (rest = [] \<or> is_topic_transition s (case rest of [] \<Rightarrow> [] | n # _ \<Rightarrow> n))")
    case True
    then show ?thesis
      using Cons.IH [of "ps @ [cur @ [s] ]" "[]"] Cons.IH [of "[cur @ [s] ]" "[]"]
      by (simp add: Let_def)
  next
    case False
    then show ?thesis
      using Cons.IH [of ps "cur @ [s]"] Cons.IH [of "[]" "cur @ [s]"]
      by (auto simp add: Let_def)
  qed
qed

lemma loop_groups_from:
  "(case paragraphs_loop [] cur ss of (ps, c) \<Rightarrow> if c \<noteq> [] then ps @ [c] else ps) =
     groups_from cur ss"
proof (induction ss arbitrary: cur)
  case Nil
  show ?case by simp
next
  case (Cons s rest)
  show ?case
  proof (cases "length (cur @ [s]) \<ge> 4 \<and>
      (rest = [] \<or> is_topic_transition s (case rest of [] \<Rightarrow> [] | n # _ \<Rightarrow> n))")
    case True
    then show ?thesis
      using Cons.IH [of "[]"] paragraphs_loop_acc [of "[cur @ [s] ]" "[]" rest]
      by (simp add: Let_def split: prod.splits if_splits)
  next
    case False
    then show ?thesis
      using Cons.IH [of "cur @ [s]"] by (auto simp add: Let_def)
  qed
qed

lemma paragraph_groups_eq: "paragraph_groups ss = groups_from [] ss"
  using loop_groups_from [of "[]" ss] by (simp add: paragraph_groups_def)

lemma concat_groups_from: "concat (groups_from cur ss) = cur @ ss"
  by (induction ss arbitrary: cur) auto

lemma groups_from_nonempty: "[] \<notin> set (groups_from cur ss)"
  by (induction ss arbitrary: cur) auto

lemma groups_from_butlast_ge4: "g \<in> set (butlast (groups_from cur ss)) \<Longrightarrow> 4 \<le> length g"
proof (induction ss arbitrary: cur)
  case Nil
  then show ?case by (simp split: if_splits)
next
  case (Cons s rest)
  show ?case
  proof (cases "length (cur @ [s]) \<ge> 4 \<and>
      (rest = [] \<or> is_topic_transition s (case rest of [] \<Rightarrow> [] | n # _ \<Rightarrow> n))")
    case True
    then have eq: "groups_from cur (s # rest) = (cur @ [s]) # groups_from [] rest"
      by simp
    show ?thesis
    proof (cases "groups_from [] rest = []")
      case True
      with eq Cons.prems show ?thesis by simp
    next
      case False
      with eq Cons.prems have "g = cur @ [s] \<or> g \<in> set (butlast (groups_from [] rest))"
        by auto
      with True Cons.IH [of "[]"] show ?thesis by auto
    qed
  next
    case False
    then have "groups_from cur (s # rest) = groups_from (cur @ [s]) rest"
      by auto
    with Cons.prems Cons.IH [of "cur @ [s]"] show ?thesis by simp
  qed
qed

lemma str_in_sublist: "str_in w s \<longleftrightarrow> sublist w s"
  by (induction s) (auto simp: sublist_Cons_right)

lemma is_topic_transition_iff:
  "is_topic_transition cur next_sentence \<longleftrightarrow>
     (\<exists>w \<in> set transition_words. sublist w (lower next_sentence))"
  by (simp add: is_topic_transition_def list_ex_iff str_in_sublist)

lemma groups_from_hd:
  "cur @ ss \<noteq> [] \<Longrightarrow>
     groups_from cur ss \<noteq> [] \<and>
     (\<exists>m. (ss \<noteq> [] \<longrightarrow> 0 < m) \<and> hd (groups_from cur ss) = cur @ take m ss)"
proof (induction ss arbitrary: cur)
  case Nil
  then show ?case by simp
next
  case (Cons s rest)
  show ?case
  proof (cases "length (cur @ [s]) \<ge> 4 \<and>
      (rest = [] \<or> is_topic_transition s (case rest of [] \<Rightarrow> [] | n # _ \<Rightarrow> n))")
    case True
    then have "groups_from cur (s # rest) = (cur @ [s]) # groups_from [] rest" by simp
    then have "hd (groups_from cur (s # rest)) = cur @ take 1 (s # rest)" by simp
    then show ?thesis using True by (metis \<open>groups_from cur (s # rest) = (cur @ [s]) # groups_from [] rest\<close> list.discI zero_less_one)
  next
    case False
    then have eq: "groups_from cur (s # rest) = groups_from (cur @ [s]) rest" by auto
    from Cons.IH [of "cur @ [s]"] obtain m where
      m: "groups_from (cur @ [s]) rest \<noteq> []" "hd (groups_from (cur @ [s]) rest) = (cur @ [s]) @ take m rest"
      by auto
    then have "hd (groups_from cur (s # rest)) = cur @ take (Suc m) (s # rest)"
      using eq by simp
    with m eq show ?thesis by (metis zero_less_Suc)
  qed
qed

lemma groups_from_hd_hd: "ss \<noteq> [] \<Longrightarrow> groups_from [] ss \<noteq> [] \<and> hd (hd (groups_from [] ss)) = hd ss"
proof -
  assume a: "ss \<noteq> []"
  with groups_from_hd [of "[]" ss] obtain m where "groups_from [] ss \<noteq> []" "0 < m" "hd (groups_from [] ss) = take m ss"
    by auto
  with a show ?thesis by (cases ss; cases m) auto
qed

lemma groups_from_closed:
  "Suc k < length (groups_from cur ss) \<Longrightarrow>
     4 \<le> length (groups_from cur ss ! k) \<and> is_topic_transition x (hd (groups_from cur ss ! Suc k))"
proof (induction ss arbitrary: cur k)
  case Nil
  then show ?case by (simp split: if_splits)
next
  case (Cons s rest)
  show ?case
  proof (cases "length (cur @ [s]) \<ge> 4 \<and>
      (rest = [] \<or> is_topic_transition s (case rest of [] \<Rightarrow> [] | n # _ \<Rightarrow> n))")
    case True
    then have eq: "groups_from cur (s # rest) = (cur @ [s]) # groups_from [] rest" by simp
    show ?thesis
    proof (cases k)
      case 0
      with Cons.prems eq have ne: "groups_from [] rest \<noteq> []" by auto
      then have r: "rest \<noteq> []" by auto
      with True have "is_topic_transition s (hd rest)" by (cases rest) auto
      then have "is_topic_transition x (hd rest)" by (simp add: is_topic_transition_def)
      moreover have "hd (groups_from [] rest ! 0) = hd rest"
        using groups_from_hd_hd [OF r] by (cases "groups_from [] rest") auto
      ultimately show ?thesis using True eq 0 by simp
    next
      case (Suc k')
      with Cons.prems eq have "Suc k' < length (groups_from [] rest)" by simp
      from Cons.IH [OF this] show ?thesis using eq Suc by simp
    qed
  next
    case False
    then have eq: "groups_from cur (s # rest) = groups_from (cur @ [s]) rest" by auto
    with Cons.prems Cons.IH [of k "cur @ [s]"] show ?thesis by simp
  qed
qed

lemma groups_from_open:
  "k < length (groups_from cur ss) \<Longrightarrow> 4 \<le> j \<Longrightarrow> j < length (groups_from cur ss ! k) \<Longrightarrow>
     (k = 0 \<Longrightarrow> length cur < j) \<Longrightarrow> \<not> is_topic_transition x (groups_from cur ss ! k ! j)"
proof (induction ss arbitrary: cur k)
  case Nil
  then show ?case by (simp split: if_splits)
next
  case (Cons s rest)
  show ?case
  proof (cases "length (cur @ [s]) \<ge> 4 \<and>
      (rest = [] \<or> is_topic_transition s (case rest of [] \<Rightarrow> [] | n # _ \<Rightarrow> n))")
    case True
    then have eq: "groups_from cur (s # rest) = (cur @ [s]) # groups_from [] rest" by simp
    show ?thesis
    proof (cases k)
      case 0
      with Cons.prems eq show ?thesis by simp
    next
      case (Suc k')
      with Cons.prems eq have "k' < length (groups_from [] rest)" "j < length (groups_from [] rest ! k')"
        by simp_all
      from Cons.IH [OF this(1) Cons.prems(2) this(2)] Cons.prems(2) show ?thesis
        using eq Suc by simp
    qed
  next
    case False
    then have eq: "groups_from cur (s # rest) = groups_from (cur @ [s]) rest" by auto
    have k: "k < length (groups_from (cur @ [s]) rest)" "j < length (groups_from (cur @ [s]) rest ! k)"
      using Cons.prems eq by simp_all
    show ?thesis
    proof (cases "k = 0 \<and> j = Suc (length cur)")
      case True
      from groups_from_hd [of "cur @ [s]" rest] obtain m where
        m: "hd (groups_from (cur @ [s]) rest) = (cur @ [s]) @ take m rest" by auto
      have g0: "groups_from (cur @ [s]) rest ! 0 = (cur @ [s]) @ take m rest"
        using m k(1) by (cases "groups_from (cur @ [s]) rest") auto
      with k(2) True have "0 < length (take m rest)" by simp
      then have r: "rest \<noteq> []" "0 < m" by auto
      have "groups_from (cur @ [s]) rest ! 0 ! j = hd rest"
        using g0 True r by (cases rest; cases m) (auto simp: nth_append)
      moreover have "\<not> is_topic_transition s (hd rest)"
        using False True Cons.prems(2) r by (cases rest) auto
      then have "\<not> is_topic_transition x (hd rest)" by (simp add: is_topic_transition_def)
      ultimately show ?thesis using eq True by simp
    next
      case False
      with Cons.prems(4) have "k = 0 \<Longrightarrow> length (cur @ [s]) < j" by auto
      from Cons.IH [OF k(1) Cons.prems(2) k(2) this] show ?thesis using eq by simp
    qed
  qed
qed

lemma create_paragraphs_groups:
  "create_paragraphs ss = join [CHR 0x0A, CHR 0x0A] (map (join '' '') (paragraph_groups ss))"
  by (simp add: create_paragraphs_def paragraph_groups_def)

text \<open>
  C6. Paragraph assembly puts every sentence, in order, into exactly one paragraph, and
  a paragraph ends after a sentence that is not the last one exactly when the buffer
  holds at least four sentences and the next sentence, lowercased, contains a
  transition marker: a paragraph that is followed by another one has at least four
  sentences and the next paragraph starts with a marker sentence, and inside a paragraph
  no sentence that follows four or more others contains a marker. What is left at the
  end forms the final paragraph, and the empty list gives the empty string.
\<close>

theorem paragraph_assembly_closes_exactly:
  "create_paragraphs [] = [] \<and>
   create_paragraphs sentences =
     join [CHR 0x0A, CHR 0x0A] (map (join '' '') (paragraph_groups sentences)) \<and>
   concat (paragraph_groups sentences) = sentences \<and>
   [] \<notin> set (paragraph_groups sentences) \<and>
   (\<forall>k. Suc k < length (paragraph_groups sentences) \<longrightarrow>
      4 \<le> length (paragraph_groups sentences ! k) \<and>
      (\<exists>w \<in> set transition_words. sublist w (lower (hd (paragraph_groups sentences ! Suc k))))) \<and>
   (\<forall>k j. k < length (paragraph_groups sentences) \<longrightarrow> 4 \<le> j \<longrightarrow>
      j < length (paragraph_groups sentences ! k) \<longrightarrow>
      \<not> (\<exists>w \<in> set transition_words. sublist w (lower (paragraph_groups sentences ! k ! j))))"
proof (intro conjI allI impI)
  show "create_paragraphs [] = []"
    by (simp add: create_paragraphs_def)
  show "create_paragraphs sentences =
      join [CHR 0x0A, CHR 0x0A] (map (join '' '') (paragraph_groups sentences))"
    by (rule create_paragraphs_groups)
  show "concat (paragraph_groups sentences) = sentences"
    by (simp add: paragraph_groups_eq concat_groups_from)
  show "[] \<notin> set (paragraph_groups sentences)"
    by (simp add: paragraph_groups_eq groups_from_nonempty)
next
  fix k
  assume "Suc k < length (paragraph_groups sentences)"
  then have "Suc k < length (groups_from [] sentences)"
    by (simp add: paragraph_groups_eq)
  from groups_from_closed [OF this, of "[]"]
  show "4 \<le> length (paragraph_groups sentences ! k)"
    and "\<exists>w \<in> set transition_words. sublist w (lower (hd (paragraph_groups sentences ! Suc k)))"
    by (simp_all add: paragraph_groups_eq is_topic_transition_iff)
next
  fix k j
  assume "k < length (paragraph_groups sentences)" "4 \<le> j"
    "j < length (paragraph_groups sentences ! k)"
  then have "\<not> is_topic_transition [] (groups_from [] sentences ! k ! j)"
    by (intro groups_from_open) (simp_all add: paragraph_groups_eq)
  then show "\<not> (\<exists>w \<in> set transition_words. sublist w (lower (paragraph_groups sentences ! k ! j)))"
    by (simp add: paragraph_groups_eq is_topic_transition_iff)
qed

theorem paragraph_assembly_closes_exactly_witness:
  "Suc 0 < length (paragraph_groups [''One.'', ''Two.'', ''Three.'', ''Four.'', ''Five.'', ''Next six.'', ''Seven.'']) \<and>
   4 < length (paragraph_groups [''One.'', ''Two.'', ''Three.'', ''Four.'', ''Five.'', ''Next six.'', ''Seven.''] ! 0) \<and>
   (\<exists>w \<in> set transition_words. sublist w (lower ''Next six.'')) \<and>
   \<not> (\<exists>w \<in> set transition_words. sublist w (lower ''Five.'')) \<and>
   create_paragraphs [''One.'', ''Two.'', ''Three.'', ''Four.'', ''Five.'', ''Next six.'', ''Seven.''] =
     ''One. Two. Three. Four. Five.\<newline>\<newline>Next six. Seven.''"
proof -
  let ?ss = "[''One.'', ''Two.'', ''Three.'', ''Four.'', ''Five.'', ''Next six.'', ''Seven.'']"
  have g: "paragraph_groups ?ss =
      [ [''One.'', ''Two.'', ''Three.'', ''Four.'', ''Five.''], [''Next six.'', ''Seven.''] ]"
    by code_simp
  note t = paragraph_assembly_closes_exactly [of ?ss]
  from t have closed: "\<forall>k. Suc k < length (paragraph_groups ?ss) \<longrightarrow>
      4 \<le> length (paragraph_groups ?ss ! k) \<and>
      (\<exists>w \<in> set transition_words. sublist w (lower (hd (paragraph_groups ?ss ! Suc k))))"
    by blast
  from t have opn: "\<forall>k j. k < length (paragraph_groups ?ss) \<longrightarrow> 4 \<le> j \<longrightarrow>
      j < length (paragraph_groups ?ss ! k) \<longrightarrow>
      \<not> (\<exists>w \<in> set transition_words. sublist w (lower (paragraph_groups ?ss ! k ! j)))"
    by blast
  from t have joined: "create_paragraphs ?ss =
      join [CHR 0x0A, CHR 0x0A] (map (join '' '') (paragraph_groups ?ss))"
    by blast
  have 1: "Suc 0 < length (paragraph_groups ?ss)" "4 < length (paragraph_groups ?ss ! 0)"
    by (simp_all add: g)
  have 2: "\<exists>w \<in> set transition_words. sublist w (lower ''Next six.'')"
    using closed [rule_format, of 0] 1 by (simp add: g)
  have 3: "\<not> (\<exists>w \<in> set transition_words. sublist w (lower ''Five.''))"
    using opn [rule_format, of 0 4] 1 by (simp add: g)
  have 4: "create_paragraphs ?ss = ''One. Two. Three. Four. Five.\<newline>\<newline>Next six. Seven.''"
    unfolding joined g by simp
  from 1 2 3 4 show ?thesis by blast
qed


text \<open>
  C10. Every paragraph that paragraph assembly emits, except the last one, has at least
  four sentences: a paragraph shorter than four can only be the final one.
\<close>

theorem closed_paragraphs_have_four:
  "Suc i < length (paragraph_groups sentences) \<Longrightarrow> 4 \<le> length (paragraph_groups sentences ! i)"
proof -
  assume a: "Suc i < length (paragraph_groups sentences)"
  then have "paragraph_groups sentences ! i \<in> set (butlast (paragraph_groups sentences))"
    by (metis length_butlast less_diff_conv nth_butlast nth_mem Suc_eq_plus1)
  then show ?thesis
    by (simp add: paragraph_groups_eq groups_from_butlast_ge4)
qed

theorem closed_paragraphs_have_four_witness:
  "Suc 0 < length (paragraph_groups [''One.'', ''Two.'', ''Three.'', ''Four.'', ''Next five.'', ''Six.'']) \<and>
   4 \<le> length (paragraph_groups [''One.'', ''Two.'', ''Three.'', ''Four.'', ''Next five.'', ''Six.''] ! 0) \<and>
   length (last (paragraph_groups [''One.'', ''Two.'', ''Three.'', ''Four.'', ''Next five.'', ''Six.''])) = 2"
proof -
  have g: "paragraph_groups [''One.'', ''Two.'', ''Three.'', ''Four.'', ''Next five.'', ''Six.''] =
      [ [''One.'', ''Two.'', ''Three.'', ''Four.''], [''Next five.'', ''Six.''] ]"
    by code_simp
  have h: "Suc 0 < length (paragraph_groups [''One.'', ''Two.'', ''Three.'', ''Four.'', ''Next five.'', ''Six.''])"
    by (simp add: g)
  from closed_paragraphs_have_four [OF h] h show ?thesis
    by (simp add: g)
qed

section \<open>Block numbering\<close>

text \<open>
  C2. The encoder numbers a block with the position of its segment in the input, so a
  skipped empty segment leaves a gap: the three segments with an empty middle one are
  written as blocks 1 and 3, not 1 and 2.
\<close>

theorem srt_blocks_skip_leaves_gap:
  "srt_blocks 1 [\<lparr>seg_start = 0, seg_end = 3 / 2, seg_text = ''hello''\<rparr>,
                 \<lparr>seg_start = 3 / 2, seg_end = 13 / 4, seg_text = []\<rparr>,
                 \<lparr>seg_start = 13 / 4, seg_end = 4, seg_text = ''world''\<rparr>] =
   ''1\<newline>00:00:00,000 --> 00:00:01,500\<newline>hello\<newline>\<newline>3\<newline>00:00:03,250 --> 00:00:04,000\<newline>world\<newline>\<newline>''"
  by code_simp

section \<open>Prompt building\<close>

text \<open>
  C1. The request-building step returns the prompt template as it was read: neither
  the title nor the text is substituted, and the prompt does not contain the text.
\<close>

theorem create_prompt_returns_template_unfilled:
  "create_prompt \<lparr>prompt_template = Some ''Title: {title} Transcript: {text}'',
                   latex_template = None, today = ''January 01, 2025''\<rparr>
     ''Sets are collections.'' ''Sets'' = Inr ''Title: {title} Transcript: {text}'' \<and>
   \<not> str_in ''Sets are collections.'' ''Title: {title} Transcript: {text}''"
  by code_simp

section \<open>Sentence filtering\<close>

lemma process_sentences_filter:
  "process_sentences nl sents =
     map (\<lambda>src. if ends_terminal (strip src) then strip src else strip src @ ''.'')
       (filter (\<lambda>src. 3 \<le> length (split_ws src) \<and> 2 \<le> length (content_words nl src)) sents)"
  by (induction sents) (auto simp: process_sentence_def Let_def ends_terminal_def)

lemma join_nonempty: "xs \<noteq> [] \<Longrightarrow> hd xs \<noteq> [] \<Longrightarrow> join sep xs \<noteq> []"
  by (induction sep xs rule: join.induct) auto

text \<open>
  What the filter of the code guarantees, with the content words counted as the code
  counts them: every sentence the normalizer emits is not empty, ends with \<open>.\<close>, \<open>!\<close> or
  \<open>?\<close>, and is the trimmed form (with a period appended where needed) of a segmented
  sentence that has at least three whitespace-separated tokens and at least two tokens
  that pass the test of \<open>content_words\<close>; the output is the paragraphs of these
  sentences, and no paragraph is empty.
\<close>

lemma emitted_sentences_pass_filter:
  "(\<forall>s \<in> set (surviving_sentences nl text).
      s \<noteq> [] \<and> ends_terminal s \<and>
      (\<exists>src \<in> set (sent_tokenize nl (remove_fillers (clean_text text))).
         3 \<le> length (split_ws src) \<and> 2 \<le> length (content_words nl src) \<and>
         s = (if ends_terminal (strip src) then strip src else strip src @ ''.''))) \<and>
   surviving_sentences nl text =
     map (\<lambda>src. if ends_terminal (strip src) then strip src else strip src @ ''.'')
       (filter (\<lambda>src. 3 \<le> length (split_ws src) \<and> 2 \<le> length (content_words nl src))
          (sent_tokenize nl (remove_fillers (clean_text text)))) \<and>
   process_text nl text =
     join [CHR 0x0A, CHR 0x0A] (map (join '' '') (paragraph_groups (surviving_sentences nl text))) \<and>
   concat (paragraph_groups (surviving_sentences nl text)) = surviving_sentences nl text \<and>
   (\<forall>p \<in> set (paragraph_groups (surviving_sentences nl text)). p \<noteq> [] \<and> join '' '' p \<noteq> [])"
proof -
  let ?sents = "sent_tokenize nl (remove_fillers (clean_text text))"
  have eq: "surviving_sentences nl text =
     map (\<lambda>src. if ends_terminal (strip src) then strip src else strip src @ ''.'')
       (filter (\<lambda>src. 3 \<le> length (split_ws src) \<and> 2 \<le> length (content_words nl src)) ?sents)"
    by (simp add: surviving_sentences_def process_sentences_filter)
  have src: "\<exists>src \<in> set ?sents.
         3 \<le> length (split_ws src) \<and> 2 \<le> length (content_words nl src) \<and>
         s = (if ends_terminal (strip src) then strip src else strip src @ ''.'')"
    if "s \<in> set (surviving_sentences nl text)" for s
    using that unfolding eq by auto
  have t: "ends_terminal s" if "s \<in> set (surviving_sentences nl text)" for s
  proof -
    from src [OF that] obtain x where
      "s = (if ends_terminal (strip x) then strip x else strip x @ ''.'')" by blast
    then show ?thesis
      by (cases "ends_terminal (strip x)") (simp_all add: ends_terminal_def)
  qed
  have ne: "s \<noteq> []" if "s \<in> set (surviving_sentences nl text)" for s
    using t [OF that] by (auto simp: ends_terminal_def)
  have c: "concat (paragraph_groups (surviving_sentences nl text)) = surviving_sentences nl text"
    by (simp add: paragraph_groups_eq concat_groups_from)
  have p: "p \<noteq> [] \<and> join '' '' p \<noteq> []"
    if p: "p \<in> set (paragraph_groups (surviving_sentences nl text))" for p
  proof -
    have pne: "p \<noteq> []"
      using p groups_from_nonempty [of "[]" "surviving_sentences nl text"]
      by (auto simp: paragraph_groups_eq)
    then have "hd p \<in> set p" by simp
    with p have "hd p \<in> set (concat (paragraph_groups (surviving_sentences nl text)))"
      by auto
    then have "hd p \<noteq> []" using ne c by simp
    with pne show ?thesis by (simp add: join_nonempty)
  qed
  have txt': "process_text nl text =
     join [CHR 0x0A, CHR 0x0A] (map (join '' '') (paragraph_groups (surviving_sentences nl text)))"
    by (simp add: process_text_def create_paragraphs_groups)
  from eq src t ne c p txt' show ?thesis by blast
qed

text \<open>
  C5. The code tests a token for punctuation with \<open>w not in string.punctuation\<close>, which
  asks whether the token is a substring of the punctuation string. A token of several
  punctuation characters such as \<open>--\<close> is not one, so it is counted as a content word.
  The sentence \<open>He said -- so -- now .\<close> has the tokens \<open>he\<close>, \<open>said\<close>, \<open>--\<close>, \<open>so\<close>, \<open>--\<close>,
  \<open>now\<close> and \<open>.\<close>, of which \<open>he\<close>, \<open>so\<close> and \<open>now\<close> are stop words: its only content word is
  \<open>said\<close>, the code counts three, and the normalizer emits the sentence.
\<close>

theorem normalizer_counts_punctuation_tokens:
  "sent_tokenize spaced_nltk (remove_fillers (clean_text ''He said -- so -- now .'')) =
     [''He said -- so -- now .''] \<and>
   word_tokenize spaced_nltk (lower ''He said -- so -- now .'') =
     [''he'', ''said'', ''--'', ''so'', ''--'', ''now'', ''.''] \<and>
   content_words spaced_nltk ''He said -- so -- now .'' = [''said'', ''--'', ''--''] \<and>
   spec_content_words spaced_nltk ''He said -- so -- now .'' = [''said''] \<and>
   process_text spaced_nltk ''He said -- so -- now .'' = ''He said -- so -- now .''"
  by code_simp

section \<open>Trimming and splitting\<close>

lemma strip_ends: "strip s = [] \<or> (\<not> isspace (hd (strip s)) \<and> \<not> isspace (last (strip s)))"
proof (cases "dropWhile isspace s = []")
  case True
  show ?thesis unfolding strip_def True by simp
next
  case False
  let ?d = "dropWhile isspace s"
  let ?e = "dropWhile isspace (rev ?d)"
  have hd: "\<not> isspace (hd ?d)" using False by (rule hd_dropWhile)
  have "last (rev ?d) = hd ?d" using False by (simp add: last_rev)
  with hd have "\<exists>x \<in> set (rev ?d). \<not> isspace x"
    using False by (metis last_in_set rev_is_Nil_conv) 
  then have e: "?e \<noteq> []" by simp
  then have "\<not> isspace (hd ?e)" by (rule hd_dropWhile)
  then have l: "\<not> isspace (last (rev ?e))" using e by (simp add: last_rev)
  have "last ?e = last (rev ?d)" using e by (metis last_appendR takeWhile_dropWhile_id)
  then have "hd (rev ?e) = hd ?d" using e False by (simp add: hd_rev last_rev)
  with hd l show ?thesis by (simp add: strip_def)
qed

lemma strip_id: "s \<noteq> [] \<Longrightarrow> \<not> isspace (hd s) \<Longrightarrow> \<not> isspace (last s) \<Longrightarrow> strip s = s"
proof -
  assume a: "s \<noteq> []" "\<not> isspace (hd s)" "\<not> isspace (last s)"
  then have 1: "dropWhile isspace s = s" by (cases s) auto
  from a have "\<not> isspace (hd (rev s))" by (simp add: hd_rev)
  with a have "dropWhile isspace (rev s) = rev s" by (cases "rev s") auto
  with 1 show ?thesis by (simp add: strip_def)
qed

lemma strip_strip: "strip (strip s) = strip s"
proof (cases "strip s = []")
  case True
  show ?thesis unfolding True by (simp add: strip_def)
next
  case False
  with strip_ends [of s] show ?thesis by (simp add: strip_id)
qed

lemma split_ws_acc_spaces: "list_all isspace ws \<Longrightarrow> split_ws_acc acc ws = (if acc = [] then [] else [rev acc])"
  by (induction ws arbitrary: acc) auto

lemma split_ws_acc_trailing: "list_all isspace ws \<Longrightarrow> split_ws_acc acc (t @ ws) = split_ws_acc acc t"
  by (induction t arbitrary: acc) (auto simp: split_ws_acc_spaces)

lemma split_ws_dropWhile: "split_ws_acc [] (dropWhile isspace s) = split_ws_acc [] s"
  by (induction s) auto

lemma split_ws_strip: "split_ws (strip s) = split_ws s"
proof -
  let ?d = "dropWhile isspace s"
  have "?d = rev (dropWhile isspace (rev ?d)) @ rev (takeWhile isspace (rev ?d))"
    by (metis rev_append rev_rev_ident takeWhile_dropWhile_id)
  moreover have "list_all isspace (rev (takeWhile isspace (rev ?d)))"
    by (simp add: list_all_iff) (meson set_takeWhileD)
  ultimately have "split_ws_acc [] ?d = split_ws_acc [] (strip s)"
    using split_ws_acc_trailing [of "rev (takeWhile isspace (rev ?d))" "[]" "strip s"]
    by (simp add: strip_def)
  then show ?thesis by (simp add: split_ws_def split_ws_dropWhile)
qed

lemma split_ws_acc_snoc: "\<not> isspace c \<Longrightarrow> length (split_ws_acc acc t) \<le> length (split_ws_acc acc (t @ [c]))"
  by (induction t arbitrary: acc) auto

lemma split_ws_snoc: "\<not> isspace c \<Longrightarrow> length (split_ws t) \<le> length (split_ws (t @ [c]))"
  by (simp add: split_ws_def split_ws_acc_snoc)

section \<open>Idempotence of the normalizer\<close>

lemma isspace_terminal: "c \<in> set [CHR ''.'', CHR ''!'', CHR ''?''] \<Longrightarrow> \<not> isspace c"
  by (auto simp: isspace_def)

lemma finished_fixed:
  assumes "s = (if ends_terminal (strip src) then strip src else strip src @ ''.'')"
  shows "strip s = s \<and> ends_terminal s \<and> length (split_ws src) \<le> length (split_ws s)"
proof (cases "ends_terminal (strip src)")
  case True
  with assms have s: "s = strip src" by simp
  with True show ?thesis by (simp add: strip_strip split_ws_strip)
next
  case False
  with assms have s: "s = strip src @ ''.''" by simp
  have dot: "\<not> isspace CHR ''.''" by (simp add: isspace_def)
  have "strip s = s"
  proof (cases "strip src = []")
    case True
    with s dot show ?thesis by (simp add: strip_id)
  next
    case False
    with strip_ends [of src] s dot show ?thesis by (simp add: strip_id)
  qed
  moreover have "ends_terminal s" using s by (simp add: ends_terminal_def)
  moreover have "length (split_ws src) \<le> length (split_ws s)"
    using split_ws_snoc [OF dot, of "strip src"] s by (simp add: split_ws_strip)
  ultimately show ?thesis by simp
qed

lemma process_sentences_fixed:
  "list_all (\<lambda>s. strip s = s \<and> ends_terminal s \<and> 3 \<le> length (split_ws s) \<and>
      2 \<le> length (content_words nl s)) ss \<Longrightarrow> process_sentences nl ss = ss"
  by (induction ss) (auto simp: process_sentence_def Let_def ends_terminal_def)

text \<open>
  C9. Running the normalizer on its own output returns it unchanged whenever cleaning,
  filler removal and sentence segmentation of that output give back the sentences that
  were emitted, and each of them still counts at least two content words.
\<close>

theorem normalizer_idempotent_when_resegmented:
  assumes "sent_tokenize nl (remove_fillers (clean_text (process_text nl text))) =
             surviving_sentences nl text"
    and "list_all (\<lambda>s. 2 \<le> length (content_words nl s)) (surviving_sentences nl text)"
  shows "process_text nl (process_text nl text) = process_text nl text"
proof -
  let ?ss = "surviving_sentences nl text"
  have "strip s = s \<and> ends_terminal s \<and> 3 \<le> length (split_ws s)" if "s \<in> set ?ss" for s
  proof -
    from that obtain src where src: "3 \<le> length (split_ws src)"
      "s = (if ends_terminal (strip src) then strip src else strip src @ ''.'')"
      by (auto simp: surviving_sentences_def process_sentences_filter)
    from finished_fixed [OF src(2)] src(1) show ?thesis by simp
  qed
  with assms(2) have "list_all (\<lambda>s. strip s = s \<and> ends_terminal s \<and> 3 \<le> length (split_ws s) \<and>
      2 \<le> length (content_words nl s)) ?ss"
    by (simp add: list_all_iff)
  then have "process_sentences nl ?ss = ?ss" by (rule process_sentences_fixed)
  with assms(1) have "surviving_sentences nl (process_text nl text) = ?ss"
    by (simp add: surviving_sentences_def [of nl "process_text nl text"])
  then show ?thesis by (simp add: process_text_def)
qed

theorem normalizer_idempotent_when_resegmented_witness:
  "process_text plain_nltk (process_text plain_nltk
      ''Cats eat fish. Dogs eat meat. Cows eat grass. Owls eat mice. Next ants eat. Bees eat too'') =
   ''Cats eat fish. Dogs eat meat. Cows eat grass. Owls eat mice.\<newline>\<newline>Next ants eat. Bees eat too.''"
proof -
  let ?text = "''Cats eat fish. Dogs eat meat. Cows eat grass. Owls eat mice. Next ants eat. Bees eat too''"
  have s: "surviving_sentences plain_nltk ?text =
      [''Cats eat fish.'', ''Dogs eat meat.'', ''Cows eat grass.'', ''Owls eat mice.'',
       ''Next ants eat.'', ''Bees eat too.'']"
    by code_simp
  have p: "process_text plain_nltk ?text =
      ''Cats eat fish. Dogs eat meat. Cows eat grass. Owls eat mice.\<newline>\<newline>Next ants eat. Bees eat too.''"
    unfolding process_text_def s by code_simp
  have 1: "sent_tokenize plain_nltk (remove_fillers (clean_text (process_text plain_nltk ?text))) =
      surviving_sentences plain_nltk ?text"
    unfolding p s by code_simp
  have 2: "list_all (\<lambda>s. 2 \<le> length (content_words plain_nltk s))
      (surviving_sentences plain_nltk ?text)"
    unfolding s by code_simp
  from normalizer_idempotent_when_resegmented [OF 1 2] p show ?thesis by simp
qed

text \<open>
  Without that condition the second run can change the text: removing \<open>um\<close> leaves
  \<open>you know\<close> behind, which only the second run removes.
\<close>

theorem normalizer_not_idempotent:
  "process_text plain_nltk ''The cat you um know sat down.'' = ''The cat you know sat down.'' \<and>
   process_text plain_nltk ''The cat you know sat down.'' = ''The cat sat down.''"
  by code_simp

section \<open>Document generation\<close>

lemma py_format_nonempty:
  "py_format kw t = Inr d \<Longrightarrow> t \<noteq> [] \<Longrightarrow> hd t \<noteq> CHR 0x7B \<Longrightarrow> d \<noteq> []"
  by (cases t) (auto split: if_splits sum.splits)

text \<open>
  C3. When both template files can be read, the LaTeX template is a format string that
  \<open>format\<close> accepts, and the output path can be opened for writing, \<open>generate_notes\<close> does
  not raise, whatever the text, the title and the outcome of the authoring call. It writes
  the authored text as it is when the call returns a string, and the template document
  in every other case: no client, a call that raises, a content of \<open>None\<close>. The template
  document is not empty when the template starts with literal text.
\<close>

theorem generate_notes_writes_document:
  assumes "prompt_template res = Some prompt"
    and "latex_template res = Some template"
    and "py_format (template_fields title (today res)
           (template_body 1 (take 5 (template_paragraphs processed_text)))) template = Inr doc"
    and "output_path \<notin> unwritable fs"
  shows "generate_notes res cl fs processed_text output_path title =
           Inr (fs\<lparr>files := (files fs)(output_path \<mapsto>
             (case cl of
                None \<Rightarrow> doc
              | Some c \<Rightarrow> (case c system_prompt prompt of
                            Content (Some authored) \<Rightarrow> authored
                          | _ \<Rightarrow> doc)))\<rparr>) \<and>
         (template \<noteq> [] \<and> hd template \<noteq> CHR 0x7B \<longrightarrow> doc \<noteq> [])"
proof -
  have t: "generate_template_notes res processed_text title = Inr doc"
    using assms(2,3) by (simp add: generate_template_notes_def)
  have p: "create_prompt res processed_text title = Inr prompt"
    using assms(1) by (simp add: create_prompt_def)
  have "generate_notes res cl fs processed_text output_path title =
           Inr (fs\<lparr>files := (files fs)(output_path \<mapsto>
             (case cl of
                None \<Rightarrow> doc
              | Some c \<Rightarrow> (case c system_prompt prompt of
                            Content (Some authored) \<Rightarrow> authored
                          | _ \<Rightarrow> doc)))\<rparr>)"
  proof (cases cl)
    case None
    then show ?thesis
      using t p assms(4) by (simp add: generate_notes_def generate_notes_try_def)
  next
    case (Some c)
    show ?thesis
    proof (cases "c system_prompt prompt")
      case Raises
      then show ?thesis
        using Some t p assms(4)
        by (simp add: generate_notes_def generate_notes_try_def generate_with_deepseek_def write_text_def)
    next
      case (Content content)
      then show ?thesis
        using Some t p assms(4)
        by (cases content)
          (simp_all add: generate_notes_def generate_notes_try_def generate_with_deepseek_def write_text_def)
    qed
  qed
  moreover have "template \<noteq> [] \<and> hd template \<noteq> CHR 0x7B \<longrightarrow> doc \<noteq> []"
    using py_format_nonempty [OF assms(3)] by blast
  ultimately show ?thesis by blast
qed

theorem generate_notes_writes_document_witness:
  "file_after (generate_notes
      \<lparr>prompt_template = Some ''Write notes.'', latex_template = Some ''Notes {title} {date} {body}'',
        today = ''January 01, 2025''\<rparr>
      (Some failing_client) empty_filesystem ''Sets are key.'' ''notes.tex'' ''Sets'') ''notes.tex'' =
   Inr (Some (''Notes Sets January 01, 2025 '' @ [CHR 0x5C] @ ''section{Topic 1}\<newline>Sets are '' @
     [CHR 0x5C] @ ''textbf{key}.\<newline>\<newline>''))"
proof -
  let ?res = "\<lparr>prompt_template = Some ''Write notes.'',
    latex_template = Some ''Notes {title} {date} {body}'', today = ''January 01, 2025''\<rparr>"
  let ?doc = "''Notes Sets January 01, 2025 '' @ [CHR 0x5C] @ ''section{Topic 1}\<newline>Sets are '' @
     [CHR 0x5C] @ ''textbf{key}.\<newline>\<newline>''"
  have 1: "prompt_template ?res = Some ''Write notes.''"
    and 2: "latex_template ?res = Some ''Notes {title} {date} {body}''"
    by simp_all
  have 3: "py_format (template_fields ''Sets'' (today ?res)
      (template_body 1 (take 5 (template_paragraphs ''Sets are key.''))))
      ''Notes {title} {date} {body}'' = Inr ?doc"
    by code_simp
  have 4: "''notes.tex'' \<notin> unwritable empty_filesystem"
    by (simp add: empty_filesystem_def)
  from generate_notes_writes_document [OF 1 2 3 4, of "Some failing_client"]
  show ?thesis
    by (simp add: failing_client_def)
qed

text \<open>
  The authored text is written without a check: an authoring call that returns the empty
  string leaves an empty document, with a text that is not empty and both templates
  readable.
\<close>

theorem generate_notes_empty_document:
  "file_after (generate_notes
      \<lparr>prompt_template = Some ''Write notes.'', latex_template = Some ''Notes {title} {date} {body}'',
        today = ''January 01, 2025''\<rparr>
      (Some silent_client) empty_filesystem ''Sets are collections.'' ''notes.tex'' ''Sets'') ''notes.tex'' =
   Inr (Some [])"
  by code_simp

section \<open>Timecodes\<close>

lemma powi_pos: "0 < (2::rat) powi k"
  by (simp add: zero_less_power_int)

lemma powi_mono: "a \<le> b \<Longrightarrow> (2::rat) powi a \<le> 2 powi b"
  by (rule power_int_increasing) simp_all

lemma powi_less_exp: "(2::rat) powi a < 2 powi b \<Longrightarrow> a < b"
  using powi_mono [of b a] by (cases "a < b") simp_all

lemma powi_add: "(2::rat) powi (a + b) = 2 powi a * 2 powi b"
  by (rule power_int_add) simp

lemma powi_nat: "0 \<le> k \<Longrightarrow> (2::rat) powi k = of_int (2 ^ nat k)"
  by (simp add: power_int_nonneg_exp)

lemma ilog2_bounds:
  assumes "0 < x"
  shows "2 powi ilog2 x \<le> x \<and> x < 2 powi (ilog2 x + 1)"
proof -
  obtain a b where q: "quotient_of x = (a, b)" by force
  have b: "0 < b" using quotient_of_denom_pos [OF q] .
  have x: "x = of_int a / of_int b" using quotient_of_div [OF q] .
  have a: "0 < a" using assms b unfolding x by (simp add: zero_less_divide_iff)
  define la where "la = bitlen a"
  define lb where "lb = bitlen b"
  have la1: "1 \<le> la" using a bitlen_eq_zero_iff [of a] bitlen_nonneg [of a] unfolding la_def by linarith
  have lb1: "1 \<le> lb" using b bitlen_eq_zero_iff [of b] bitlen_nonneg [of b] unfolding lb_def by linarith
  have "(2::int) ^ nat (la - 1) \<le> a" "a < 2 ^ nat la"
    using bitlen_bounds [OF a] unfolding la_def by simp_all
  hence ar: "(2::rat) powi (la - 1) \<le> of_int a" "of_int a < (2::rat) powi la"
    using la1 by (simp_all add: powi_nat)
  have "(2::int) ^ nat (lb - 1) \<le> b" "b < 2 ^ nat lb"
    using bitlen_bounds [OF b] unfolding lb_def by simp_all
  hence br: "(2::rat) powi (lb - 1) \<le> of_int b" "of_int b < (2::rat) powi lb"
    using lb1 by (simp_all add: powi_nat)
  have bpos: "(0::rat) < of_int b" using b by simp
  have up: "x < 2 powi (la - lb + 1)"
  proof -
    have "of_int a < (2::rat) powi la" by (rule ar)
    also have "\<dots> = 2 powi (la - lb + 1) * 2 powi (lb - 1)"
      by (simp add: power_int_add [symmetric])
    also have "\<dots> \<le> 2 powi (la - lb + 1) * of_int b"
      using br(1) powi_pos [of "la - lb + 1"] by (simp add: mult_left_mono)
    finally show ?thesis unfolding x using bpos by (simp add: pos_divide_less_eq)
  qed
  have lo: "2 powi (la - lb - 1) < x"
  proof -
    have "2 powi (la - lb - 1) * of_int b < (2::rat) powi (la - lb - 1) * 2 powi lb"
      using br(2) powi_pos [of "la - lb - 1"] by (simp add: mult_strict_left_mono)
    also have "\<dots> = 2 powi (la - 1)"
      by (simp add: power_int_add [symmetric])
    also have "\<dots> \<le> of_int a" by (rule ar)
    finally show ?thesis unfolding x using bpos by (simp add: pos_less_divide_eq)
  qed
  have il: "ilog2 x = (if 2 powi (la - lb) \<le> x then la - lb else la - lb - 1)"
    unfolding ilog2_def q la_def lb_def by (simp add: Let_def)
  show ?thesis
  proof (cases "2 powi (la - lb) \<le> x")
    case True
    thus ?thesis using up il by simp
  next
    case False
    thus ?thesis using lo il by simp
  qed
qed

lemma ilog2_mono:
  assumes "0 < x" "x \<le> y"
  shows "ilog2 x \<le> ilog2 y"
proof -
  have "2 powi ilog2 x \<le> x" using ilog2_bounds [OF assms(1)] by simp
  also have "x \<le> y" by (rule assms)
  also have "y < 2 powi (ilog2 y + 1)" using ilog2_bounds [of y] assms by simp
  finally have "ilog2 x < ilog2 y + 1" by (rule powi_less_exp)
  thus ?thesis by simp
qed

lemma round_half_even_int: "round_half_even (of_int n) = n"
  by (simp add: round_half_even_def)

lemma round_half_even_floor: "\<lfloor>y\<rfloor> \<le> round_half_even y \<and> round_half_even y \<le> \<lfloor>y\<rfloor> + 1"
  by (simp add: round_half_even_def Let_def)

lemma round_half_even_le_int:
  assumes "y \<le> of_int n"
  shows "round_half_even y \<le> n"
proof (cases "y = of_int n")
  case True
  thus ?thesis by (simp add: round_half_even_int)
next
  case False
  hence "y < of_int n" using assms by simp
  hence "\<lfloor>y\<rfloor> < n" by (simp add: floor_less_iff)
  thus ?thesis using round_half_even_floor [of y] by linarith
qed

lemma round_half_even_ge_int:
  assumes "of_int n \<le> y"
  shows "n \<le> round_half_even y"
proof -
  have "n \<le> \<lfloor>y\<rfloor>" using assms by (simp add: le_floor_iff)
  thus ?thesis using round_half_even_floor [of y] by linarith
qed

lemma round_half_even_mono:
  assumes "x \<le> y"
  shows "round_half_even x \<le> round_half_even y"
proof (cases "\<lfloor>x\<rfloor> = \<lfloor>y\<rfloor>")
  case True
  have "x - of_int \<lfloor>x\<rfloor> \<le> y - of_int \<lfloor>x\<rfloor>" using assms by simp
  thus ?thesis unfolding round_half_even_def Let_def True [symmetric] by auto
next
  case False
  have "\<lfloor>x\<rfloor> \<le> \<lfloor>y\<rfloor>" using assms by (rule floor_mono)
  hence "\<lfloor>x\<rfloor> + 1 \<le> \<lfloor>y\<rfloor>" using False by simp
  thus ?thesis using round_half_even_floor [of x] round_half_even_floor [of y] by linarith
qed


lemma round_double_unit:
  "x \<noteq> 0 \<Longrightarrow> round_double x = of_int (round_half_even (x / 2 powi ulp_exp x)) * 2 powi ulp_exp x"
  by (simp add: round_double_def)

lemma round_double_nonneg:
  assumes "0 \<le> x"
  shows "0 \<le> round_double x"
proof (cases "x = 0")
  case True
  thus ?thesis by (simp add: round_double_def)
next
  case False
  have "of_int 0 \<le> x / 2 powi ulp_exp x" using assms powi_pos [of "ulp_exp x"] by simp
  hence "0 \<le> round_half_even (x / 2 powi ulp_exp x)" by (rule round_half_even_ge_int)
  thus ?thesis using powi_pos [of "ulp_exp x"] by (simp add: round_double_unit [OF False])
qed

lemma significand_less:
  assumes "0 < x"
  shows "x / 2 powi ulp_exp x < 2 powi 53"
proof -
  have "x < 2 powi (ilog2 x + 1)" using ilog2_bounds [OF assms] by simp
  also have "\<dots> \<le> 2 powi (ulp_exp x + 53)"
    using assms by (intro powi_mono) (simp add: ulp_exp_def)
  also have "\<dots> = 2 powi 53 * 2 powi ulp_exp x"
    unfolding powi_add by (rule mult.commute)
  finally show ?thesis using powi_pos [of "ulp_exp x"] by (simp add: pos_divide_less_eq)
qed

lemma round_double_fix:
  assumes "0 < m" "m < 2 ^ 53" "- 1074 \<le> k"
  shows "round_double (of_int m * 2 powi k) = of_int m * 2 powi k"
proof -
  define x :: rat where "x = of_int m * 2 powi k"
  have xpos: "0 < x" using assms(1) powi_pos [of k] unfolding x_def by simp
  have "2 powi ilog2 x \<le> x" using ilog2_bounds [OF xpos] by simp
  also have "x < 2 powi 53 * 2 powi k"
    unfolding x_def using assms(2) powi_pos [of k]
    by (intro mult_strict_right_mono) (simp_all add: of_int_less_numeral_power_cancel_iff)
  also have "\<dots> = 2 powi (53 + k)" by (rule powi_add [symmetric])
  finally have "ilog2 x < 53 + k" by (rule powi_less_exp)
  hence pk: "ulp_exp x \<le> k" using assms(3) xpos by (simp add: ulp_exp_def)
  have "x / 2 powi ulp_exp x = of_int m * (2 powi k / 2 powi ulp_exp x)" by (simp add: x_def)
  also have "2 powi k / (2::rat) powi ulp_exp x = 2 powi (k - ulp_exp x)"
    by (simp add: power_int_diff)
  also have "\<dots> = of_int (2 ^ nat (k - ulp_exp x))" using pk by (simp add: powi_nat)
  finally have "x / 2 powi ulp_exp x = of_int (m * 2 ^ nat (k - ulp_exp x))" by simp
  hence "round_half_even (x / 2 powi ulp_exp x) = m * 2 ^ nat (k - ulp_exp x)"
    by (simp only: round_half_even_int)
  hence "round_double x = of_int (m * 2 ^ nat (k - ulp_exp x)) * 2 powi ulp_exp x"
    using xpos by (simp add: round_double_unit)
  also have "\<dots> = of_int m * (2 powi (k - ulp_exp x) * 2 powi ulp_exp x)"
    using pk by (simp add: powi_nat)
  also have "2 powi (k - ulp_exp x) * (2::rat) powi ulp_exp x = 2 powi k"
    by (simp add: power_int_add [symmetric])
  finally show ?thesis unfolding x_def .
qed

lemma round_double_int:
  assumes "0 \<le> n" "n < 2 ^ 53"
  shows "round_double (of_int n) = of_int n"
proof (cases "n = 0")
  case True
  thus ?thesis by (simp add: round_double_def)
next
  case False
  thus ?thesis using round_double_fix [of n 0] assms by simp
qed

lemma round_double_mono:
  assumes "0 \<le> x" "x \<le> y"
  shows "round_double x \<le> round_double y"
proof (cases "x = 0")
  case True
  thus ?thesis using round_double_nonneg [of y] assms by (simp add: round_double_def)
next
  case False
  hence xpos: "0 < x" using assms by simp
  hence ypos: "0 < y" using assms by simp
  have e: "ilog2 x \<le> ilog2 y" using ilog2_mono [OF xpos assms(2)] .
  hence p: "ulp_exp x \<le> ulp_exp y" using xpos ypos by (simp add: ulp_exp_def)
  show ?thesis
  proof (cases "ulp_exp x = ulp_exp y")
    case True
    have "x / 2 powi ulp_exp y \<le> y / 2 powi ulp_exp y"
      using assms(2) powi_pos [of "ulp_exp y"] by (simp add: divide_right_mono)
    hence "round_half_even (x / 2 powi ulp_exp y) \<le> round_half_even (y / 2 powi ulp_exp y)"
      by (rule round_half_even_mono)
    thus ?thesis using xpos ypos powi_pos [of "ulp_exp y"]
      by (simp add: round_double_unit True)
  next
    case False
    hence lt: "ulp_exp x < ulp_exp y" using p by simp
    have ax: "\<bar>x\<bar> = x" "\<bar>y\<bar> = y" using xpos ypos by simp_all
    have ey: "ulp_exp y = ilog2 y - 52" "ilog2 x < ilog2 y" "ulp_exp x + 52 \<le> ilog2 y"
      using lt unfolding ulp_exp_def ax by linarith+
    define g :: rat where "g = 2 powi ilog2 y"
    have "x < 2 powi (ilog2 x + 1)" using ilog2_bounds [OF xpos] by simp
    also have "\<dots> \<le> g" unfolding g_def using ey(2) by (intro powi_mono) simp
    finally have xg: "x \<le> g" by simp
    have gx: "g / 2 powi ulp_exp x = of_int (2 ^ nat (ilog2 y - ulp_exp x))"
      unfolding g_def using ey(3) by (simp add: power_int_diff [symmetric] powi_nat)
    have "x / 2 powi ulp_exp x \<le> g / 2 powi ulp_exp x"
      using xg powi_pos [of "ulp_exp x"] by (simp add: divide_right_mono)
    hence "round_half_even (x / 2 powi ulp_exp x) \<le> 2 ^ nat (ilog2 y - ulp_exp x)"
      unfolding gx by (rule round_half_even_le_int)
    hence "(of_int (round_half_even (x / 2 powi ulp_exp x)) :: rat) \<le> of_int (2 ^ nat (ilog2 y - ulp_exp x))"
      by (simp only: of_int_le_iff)
    hence "round_double x \<le> (g / 2 powi ulp_exp x) * 2 powi ulp_exp x"
      unfolding gx using xpos powi_pos [of "ulp_exp x"]
      by (simp only: round_double_unit [OF \<open>x \<noteq> 0\<close>] mult_le_cancel_right_pos)
    hence lo: "round_double x \<le> g" by simp
    have gy: "g / 2 powi ulp_exp y = of_int (2 ^ 52)"
      unfolding g_def ey(1) by (simp add: power_int_diff [symmetric])
    have "g \<le> y" unfolding g_def using ilog2_bounds [OF ypos] by simp
    hence "g / 2 powi ulp_exp y \<le> y / 2 powi ulp_exp y"
      using powi_pos [of "ulp_exp y"] by (simp add: divide_right_mono)
    hence "2 ^ 52 \<le> round_half_even (y / 2 powi ulp_exp y)"
      unfolding gy by (rule round_half_even_ge_int)
    hence "(of_int (2 ^ 52) :: rat) \<le> of_int (round_half_even (y / 2 powi ulp_exp y))"
      by (simp only: of_int_le_iff)
    hence "(g / 2 powi ulp_exp y) * 2 powi ulp_exp y \<le> round_double y"
      unfolding gy using ypos powi_pos [of "ulp_exp y"]
      by (simp only: round_double_unit [of y] mult_le_cancel_right_pos)
    hence "g \<le> round_double y" by simp
    thus ?thesis using lo by simp
  qed
qed


lemma double_significand:
  assumes "0 < s" "round_double s = s"
  obtains n where "s = of_int n * 2 powi ulp_exp s" "0 < n" "n < 2 ^ 53"
proof -
  define n where "n = round_half_even (s / 2 powi ulp_exp s)"
  have s: "s = of_int n * 2 powi ulp_exp s"
    using assms round_double_unit [of s] unfolding n_def by simp
  have "0 < of_int n * (2::rat) powi ulp_exp s" using assms(1) s by simp
  hence npos: "0 < n" using powi_pos [of "ulp_exp s"] by (simp add: zero_less_mult_iff)
  have "s / 2 powi ulp_exp s = of_int n * 2 powi ulp_exp s / 2 powi ulp_exp s"
    using s by simp
  hence "s / 2 powi ulp_exp s = of_int n" using powi_pos [of "ulp_exp s"] by simp
  hence "(of_int n :: rat) < 2 powi 53" using significand_less [OF assms(1)] by simp
  hence "n < 2 ^ 53" by (simp add: of_int_less_numeral_power_cancel_iff)
  thus ?thesis using that s npos by blast
qed

lemma ulp_exp_ge: "- 1074 \<le> ulp_exp x"
  by (simp add: ulp_exp_def)

lemma double_fraction:
  assumes "0 \<le> s" "round_double s = s"
  shows "round_double (s - of_int \<lfloor>s\<rfloor>) = s - of_int \<lfloor>s\<rfloor>"
proof (cases "s = 0")
  case True
  thus ?thesis by (simp add: round_double_def)
next
  case False
  hence spos: "0 < s" using assms by simp
  obtain n where n: "s = of_int n * 2 powi ulp_exp s" "0 < n" "n < 2 ^ 53"
    using double_significand [OF spos assms(2)] by blast
  define p where "p = ulp_exp s"
  show ?thesis
  proof (cases "0 \<le> p")
    case True
    have "s = of_int (n * 2 ^ nat p)" using n(1) True unfolding p_def by (simp add: powi_nat)
    hence "s - of_int \<lfloor>s\<rfloor> = 0" by simp
    thus ?thesis by (simp add: round_double_def)
  next
    case False
    define D :: int where "D = 2 ^ nat (- p)"
    have Dpos: "0 < D" unfolding D_def by simp
    have u: "(2::rat) powi p = 1 / of_int D"
      using False unfolding D_def by (simp add: power_int_def power_one_over)
    have s': "s = of_int n / of_int D" using n(1) unfolding p_def [symmetric] u by simp
    have fl: "\<lfloor>s\<rfloor> = n div D" unfolding s' by (simp add: floor_divide_of_int_eq)
    have "of_int n = (of_int (n div D) * of_int D + of_int (n mod D) :: rat)"
      by (metis of_int_add of_int_mult div_mult_mod_eq)
    hence "(of_int n :: rat) / of_int D = of_int (n div D) + of_int (n mod D) / of_int D"
      using Dpos by (simp add: field_simps)
    hence "of_int n / of_int D - of_int (n div D) = of_int (n mod D) * (1 / rat_of_int D)"
      by simp
    hence fr: "s - of_int \<lfloor>s\<rfloor> = of_int (n mod D) * 2 powi p"
      unfolding fl unfolding s' u .
    have m0: "0 \<le> n mod D" using Dpos by simp
    have "n mod D \<le> n" using n(2) Dpos by (simp add: zmod_le_nonneg_dividend)
    hence m1: "n mod D < 2 ^ 53" using n(3) by simp
    show ?thesis
    proof (cases "n mod D = 0")
      case True
      thus ?thesis unfolding fr by (simp add: round_double_def)
    next
      case False
      hence "0 < n mod D" using m0 by simp
      thus ?thesis unfolding fr using round_double_fix [of "n mod D" p] m1 ulp_exp_ge [of s]
        by (simp add: p_def)
    qed
  qed
qed

lemma double_below_one:
  assumes "0 \<le> f" "f < 1" "round_double f = f"
  shows "f \<le> 1 - 1 / 2 ^ 53"
proof (cases "f = 0")
  case True
  thus ?thesis by simp
next
  case False
  hence fpos: "0 < f" using assms by simp
  have "2 powi ilog2 f \<le> f" using ilog2_bounds [OF fpos] by simp
  also have "f < 2 powi 0" using assms(2) by simp
  finally have e: "ilog2 f < 0" by (rule powi_less_exp)
  show ?thesis
  proof (cases "ilog2 f = - 1")
    case True
    have af: "\<bar>f\<bar> = f" using fpos by simp
    have p: "ulp_exp f = - 53" unfolding ulp_exp_def af True by simp
    obtain n where n: "f = of_int n * 2 powi ulp_exp f" "0 < n" "n < 2 ^ 53"
      using double_significand [OF fpos assms(3)] by blast
    have "n \<le> 2 ^ 53 - 1" using n(3) by simp
    hence "(of_int n :: rat) \<le> of_int (2 ^ 53 - 1)" by (simp only: of_int_le_iff)
    hence "of_int n * (2::rat) powi (- 53) \<le> of_int (2 ^ 53 - 1) * 2 powi (- 53)"
      by (rule mult_right_mono) simp
    hence "f \<le> of_int (2 ^ 53 - 1) * 2 powi (- 53)" using n(1) unfolding p by simp
    also have "\<dots> = 1 - 1 / 2 ^ 53" by (simp add: power_int_minus)
    finally show ?thesis .
  next
    case False
    hence "ilog2 f + 1 \<le> - 1" using e by simp
    hence "(2::rat) powi (ilog2 f + 1) \<le> 2 powi (- 1)" by (rule powi_mono)
    hence "f < 2 powi (- 1)" using ilog2_bounds [OF fpos] by simp
    thus ?thesis by simp
  qed
qed

lemma round_double_below_1000: "round_double ((1 - 1 / 2 ^ 53) * 1000) = 1000 - 1 / 2 ^ 43"
  by code_simp

lemma floor_divide_int:
  fixes x :: rat and n :: int
  assumes "0 < n"
  shows "\<lfloor>x / of_int n\<rfloor> = \<lfloor>x\<rfloor> div n"
proof (rule floor_unique)
  have n: "(0::rat) < of_int n" using assms by simp
  have "of_int (\<lfloor>x\<rfloor> div n * n) \<le> (of_int \<lfloor>x\<rfloor> :: rat)"
    using assms by (simp only: of_int_le_iff) (metis div_mult_mod_eq le_add_same_cancel1 pos_mod_sign)
  also have "\<dots> \<le> x" by simp
  finally have "of_int (\<lfloor>x\<rfloor> div n) * of_int n \<le> x" by simp
  then show "of_int (\<lfloor>x\<rfloor> div n) \<le> x / of_int n"
    using n by (simp add: pos_le_divide_eq)
  have "\<lfloor>x\<rfloor> + 1 \<le> (\<lfloor>x\<rfloor> div n + 1) * n"
  proof -
    have e: "\<lfloor>x\<rfloor> div n * n + \<lfloor>x\<rfloor> mod n = \<lfloor>x\<rfloor>" by simp
    have r: "\<lfloor>x\<rfloor> mod n < n" using assms by simp
    have "(\<lfloor>x\<rfloor> div n + 1) * n = \<lfloor>x\<rfloor> div n * n + n" by (simp add: distrib_right)
    with e r show ?thesis by linarith
  qed
  then have "(of_int (\<lfloor>x\<rfloor> + 1) :: rat) \<le> of_int ((\<lfloor>x\<rfloor> div n + 1) * n)"
    by (simp only: of_int_le_iff)
  moreover have "x < of_int (\<lfloor>x\<rfloor> + 1)" by simp linarith
  ultimately have "x < (of_int (\<lfloor>x\<rfloor> div n) + 1) * of_int n" by simp
  then show "x / of_int n < of_int (\<lfloor>x\<rfloor> div n) + 1"
    using n by (simp add: pos_divide_less_eq)
qed

lemma py_int_of_int: "py_int (of_int n) = n"
  by (simp add: py_int_def)

lemma float_divmod_exact:
  fixes s :: rat and w :: int
  assumes "0 \<le> s" "s < 2 ^ 53" "0 < w"
  shows "float_floordiv s (of_int w) = of_int \<lfloor>s / of_int w\<rfloor>"
    and "float_rem s (of_int w) = s - of_int w * of_int \<lfloor>s / of_int w\<rfloor>"
proof -
  define q where "q = \<lfloor>s / of_int w\<rfloor>"
  have wpos: "(0::rat) < of_int w" using assms(3) by simp
  have sw: "0 \<le> s / of_int w" using assms(1) wpos by simp
  hence q0: "0 \<le> q" unfolding q_def by simp
  have pi: "py_int (s / of_int w) = q" using sw by (simp add: py_int_def q_def)
  have "of_int q \<le> s / of_int w" unfolding q_def by simp
  hence qw: "of_int q * of_int w \<le> s" using wpos by (simp add: pos_le_divide_eq)
  have m: "fmod s (of_int w) = s - of_int q * of_int w" by (simp add: fmod_def pi)
  have m0: "0 \<le> fmod s (of_int w)" using qw m by simp
  have "(of_int (q * w) :: rat) < 2 ^ 53" using qw assms(2) by simp
  hence b1: "q * w < 2 ^ 53" by (simp only: of_int_less_numeral_power_cancel_iff)
  have "q * 1 \<le> q * w" using q0 assms(3) by (intro mult_left_mono) simp_all
  hence b2: "q < 2 ^ 53" using b1 by simp
  have "0 \<le> q * w" using q0 assms(3) by simp
  hence "round_double (of_int (q * w)) = of_int (q * w)" using b1 by (rule round_double_int)
  hence r1: "float_sub s (fmod s (of_int w)) = of_int q * of_int w"
    by (simp add: float_sub_def m)
  have r2: "float_div (of_int q * of_int w) (of_int w) = of_int q"
    using wpos round_double_int [OF q0 b2] by (simp add: float_div_def)
  have r3: "float_sub (of_int q) (of_int q) = 0" by (simp add: float_sub_def round_double_def)
  have adj: "\<not> (fmod s (of_int w) \<noteq> 0 \<and> ((of_int w :: rat) < 0) \<noteq> (fmod s (of_int w) < 0))"
    using m0 wpos by simp
  show "float_floordiv s (of_int w) = of_int \<lfloor>s / of_int w\<rfloor>"
    unfolding float_floordiv_def float_divmod_def Let_def q_def [symmetric]
    by (simp only: adj if_False r1 r2 r3 fst_conv of_int_floor_cancel floor_of_int split: if_splits) simp
  show "float_rem s (of_int w) = s - of_int w * of_int \<lfloor>s / of_int w\<rfloor>"
    unfolding float_rem_def Let_def q_def [symmetric]
    by (simp only: adj if_False) (simp add: m)
qed

lemma srt_components:
  fixes s :: rat
  assumes "0 \<le> s" "s < 2 ^ 53"
  shows "py_int (float_floordiv s 3600) = \<lfloor>s\<rfloor> div 3600"
    and "py_int (float_floordiv (float_rem s 3600) 60) = (\<lfloor>s\<rfloor> div 60) mod 60"
    and "py_int (float_rem s 60) = \<lfloor>s\<rfloor> mod 60"
proof -
  have f0: "0 \<le> \<lfloor>s\<rfloor>" using assms by simp
  have d3600: "\<lfloor>s / 3600\<rfloor> = \<lfloor>s\<rfloor> div 3600"
    using floor_divide_int [of 3600 s] by simp
  have d60: "\<lfloor>s / 60\<rfloor> = \<lfloor>s\<rfloor> div 60"
    using floor_divide_int [of 60 s] by simp
  have fd: "float_floordiv s 3600 = of_int \<lfloor>s / 3600\<rfloor>"
    using float_divmod_exact(1) [OF assms, of 3600] by simp
  have fr: "float_rem s 3600 = s - 3600 * of_int \<lfloor>s / 3600\<rfloor>"
    using float_divmod_exact(2) [OF assms, of 3600] by simp
  have fr60: "float_rem s 60 = s - 60 * of_int \<lfloor>s / 60\<rfloor>"
    using float_divmod_exact(2) [OF assms, of 60] by simp
  show "py_int (float_floordiv s 3600) = \<lfloor>s\<rfloor> div 3600"
    unfolding fd d3600 by (rule py_int_of_int)
  define r where "r = s - 3600 * of_int \<lfloor>s / 3600\<rfloor>"
  have "of_int \<lfloor>s / 3600\<rfloor> * 3600 \<le> s"
    using floor_divide_lower [of 3600 s] by simp
  hence r0: "0 \<le> r" by (simp add: r_def mult.commute)
  have "0 \<le> \<lfloor>s / 3600\<rfloor>" unfolding d3600 using f0 by (simp add: pos_imp_zdiv_nonneg_iff)
  hence "r \<le> s" by (simp add: r_def)
  hence r1: "r < 2 ^ 53" using assms(2) by simp
  have fd2: "float_floordiv r 60 = of_int \<lfloor>r / 60\<rfloor>"
    using float_divmod_exact(1) [OF r0 r1, of 60] by simp
  have "\<lfloor>r / 60\<rfloor> = \<lfloor>s / 60 - of_int (60 * (\<lfloor>s\<rfloor> div 3600))\<rfloor>"
    by (simp add: r_def d3600 diff_divide_distrib)
  also have "\<dots> = \<lfloor>s\<rfloor> div 60 - 60 * (\<lfloor>s\<rfloor> div 3600)"
    by (simp only: floor_diff_of_int d60)
  also have "\<dots> = (\<lfloor>s\<rfloor> div 60) mod 60"
  proof -
    have "\<lfloor>s\<rfloor> div 3600 = (\<lfloor>s\<rfloor> div 60) div 60"
      by (simp add: zdiv_zmult2_eq)
    then show ?thesis by (simp add: minus_mult_div_eq_mod)
  qed
  finally have m: "\<lfloor>r / 60\<rfloor> = (\<lfloor>s\<rfloor> div 60) mod 60" .
  show "py_int (float_floordiv (float_rem s 3600) 60) = (\<lfloor>s\<rfloor> div 60) mod 60"
    unfolding fr r_def [symmetric] fd2 m by (rule py_int_of_int)
  have "\<lfloor>s - 60 * of_int \<lfloor>s / 60\<rfloor>\<rfloor> = \<lfloor>s - of_int (60 * (\<lfloor>s\<rfloor> div 60))\<rfloor>"
    by (simp add: d60)
  also have "\<dots> = \<lfloor>s\<rfloor> - 60 * (\<lfloor>s\<rfloor> div 60)"
    by (simp only: floor_diff_of_int)
  also have "\<dots> = \<lfloor>s\<rfloor> mod 60"
    by (simp add: minus_mult_div_eq_mod)
  finally have sec: "\<lfloor>s - 60 * of_int \<lfloor>s / 60\<rfloor>\<rfloor> = \<lfloor>s\<rfloor> mod 60" .
  have "0 \<le> s - 60 * of_int \<lfloor>s / 60\<rfloor>"
  proof -
    have "of_int \<lfloor>s / 60\<rfloor> * 60 \<le> s"
      using floor_divide_lower [of 60 s] by simp
    then show ?thesis by (simp add: mult.commute)
  qed
  then show "py_int (float_rem s 60) = \<lfloor>s\<rfloor> mod 60"
    unfolding fr60 by (simp add: py_int_def sec)
qed

lemma srt_millis:
  fixes s :: rat
  assumes "0 \<le> s" "s < 2 ^ 53" "is_double s"
  shows "py_int (float_mul (float_sub s (int_to_float (py_int s))) 1000) =
           \<lfloor>round_double ((s - of_int \<lfloor>s\<rfloor>) * 1000)\<rfloor>"
    and "0 \<le> \<lfloor>round_double ((s - of_int \<lfloor>s\<rfloor>) * 1000)\<rfloor>"
    and "\<lfloor>round_double ((s - of_int \<lfloor>s\<rfloor>) * 1000)\<rfloor> < 1000"
proof -
  define f where "f = s - of_int \<lfloor>s\<rfloor>"
  have f0: "0 \<le> f" and f1: "f < 1" unfolding f_def by linarith+
  have i: "py_int s = \<lfloor>s\<rfloor>" using assms(1) by (simp add: py_int_def)
  have n0: "0 \<le> \<lfloor>s\<rfloor>" using assms(1) by simp
  have "(of_int \<lfloor>s\<rfloor> :: rat) < 2 ^ 53" using assms(2) of_int_floor_le [of s] by linarith
  hence "\<lfloor>s\<rfloor> < 2 ^ 53" by (simp only: of_int_less_numeral_power_cancel_iff)
  hence c: "int_to_float \<lfloor>s\<rfloor> = of_int \<lfloor>s\<rfloor>"
    unfolding int_to_float_def using n0 by (intro round_double_int)
  have rs: "round_double s = s" using assms(3) by (simp add: is_double_def)
  have d: "round_double f = f" unfolding f_def using assms(1) rs by (rule double_fraction)
  have nn: "0 \<le> round_double (f * 1000)" using f0 by (intro round_double_nonneg) simp
  show "py_int (float_mul (float_sub s (int_to_float (py_int s))) 1000) =
           \<lfloor>round_double ((s - of_int \<lfloor>s\<rfloor>) * 1000)\<rfloor>"
    unfolding i c float_sub_def float_mul_def f_def [symmetric] d using nn by (simp add: py_int_def)
  show "0 \<le> \<lfloor>round_double ((s - of_int \<lfloor>s\<rfloor>) * 1000)\<rfloor>"
    unfolding f_def [symmetric] using nn by simp
  have "f \<le> 1 - 1 / 2 ^ 53" using f0 f1 d by (rule double_below_one)
  hence "f * 1000 \<le> (1 - 1 / 2 ^ 53) * 1000" by simp
  moreover have "0 \<le> f * 1000" using f0 by simp
  ultimately have "round_double (f * 1000) \<le> round_double ((1 - 1 / 2 ^ 53) * 1000)"
    by (intro round_double_mono)
  hence "round_double (f * 1000) < 1000" unfolding round_double_below_1000 by simp
  thus "\<lfloor>round_double ((s - of_int \<lfloor>s\<rfloor>) * 1000)\<rfloor> < 1000"
    unfolding f_def [symmetric] by (simp add: floor_less_iff)
qed

lemma millis_mono:
  fixes a b :: rat
  assumes "\<lfloor>a\<rfloor> = \<lfloor>b\<rfloor>" "a \<le> b"
  shows "\<lfloor>round_double ((a - of_int \<lfloor>a\<rfloor>) * 1000)\<rfloor> \<le> \<lfloor>round_double ((b - of_int \<lfloor>b\<rfloor>) * 1000)\<rfloor>"
proof -
  have "0 \<le> a - of_int \<lfloor>a\<rfloor>" by linarith
  hence "0 \<le> (a - of_int \<lfloor>a\<rfloor>) * 1000" by simp
  moreover have "(a - of_int \<lfloor>a\<rfloor>) * 1000 \<le> (b - of_int \<lfloor>b\<rfloor>) * 1000"
    using assms by simp
  ultimately show ?thesis by (intro floor_mono round_double_mono)
qed

lemma of_char_digit: "i < 10 \<Longrightarrow> of_char (digit_char i) = (48 + i :: nat)"
proof -
  assume "i < 10"
  then have "i \<in> {0, 1, 2, 3, 4, 5, 6, 7, 8, 9}" by auto
  then show ?thesis by (elim insertE emptyE) (simp_all add: digit_char_def)
qed

lemma digit_less: "i < j \<Longrightarrow> j < 10 \<Longrightarrow> digit_char i < digit_char j"
  by (simp add: less_char_def of_char_digit)

lemma digits_small: "n < 10 \<Longrightarrow> digits n = [digit_char n]"
  by (simp add: digits.simps)

lemma digits_two: "10 \<le> n \<Longrightarrow> n < 100 \<Longrightarrow> digits n = [digit_char (n div 10), digit_char (n mod 10)]"
proof -
  assume a: "10 \<le> n" "n < 100"
  then have "n div 10 < 10" by simp
  then have "digits (n div 10) = [digit_char (n div 10)]" by (rule digits_small)
  moreover have "digits n = digits (n div 10) @ [digit_char (n mod 10)]"
    using a by (subst digits.simps) simp
  ultimately show ?thesis by simp
qed

lemma digits_three: "100 \<le> n \<Longrightarrow> n < 1000 \<Longrightarrow>
   digits n = [digit_char (n div 100), digit_char (n div 10 mod 10), digit_char (n mod 10)]"
proof -
  assume a: "100 \<le> n" "n < 1000"
  then have "10 \<le> n div 10" "n div 10 < 100" by simp_all
  then have "digits (n div 10) = [digit_char (n div 10 div 10), digit_char (n div 10 mod 10)]"
    by (rule digits_two)
  moreover have "digits n = digits (n div 10) @ [digit_char (n mod 10)]"
    using a by (subst digits.simps) simp
  moreover have "n div 10 div 10 = n div 100" by (simp add: div_mult2_eq)
  ultimately show ?thesis by simp
qed

lemma digit_char_0: "digit_char 0 = CHR ''0''"
  by (simp add: digit_char_def)

lemma pad2: "n < 100 \<Longrightarrow> zfill 2 (digits n) = [digit_char (n div 10), digit_char (n mod 10)]"
proof (cases "n < 10")
  case True
  then show ?thesis by (simp add: digits_small zfill_def digit_char_0)
next
  case False
  assume "n < 100"
  with False show ?thesis by (simp add: digits_two zfill_def)
qed

lemma pad3: "n < 1000 \<Longrightarrow> zfill 3 (digits n) =
    [digit_char (n div 100), digit_char (n div 10 mod 10), digit_char (n mod 10)]"
proof -
  assume n: "n < 1000"
  consider "n < 10" | "10 \<le> n" "n < 100" | "100 \<le> n" by linarith
  then show ?thesis
  proof cases
    case 1
    then have "n div 100 = 0" "n div 10 mod 10 = 0" "n mod 10 = n" by simp_all
    with 1 show ?thesis by (simp add: digits_small zfill_def digit_char_0 numeral_3_eq_3)
  next
    case 2
    then have "n div 100 = 0" "n div 10 mod 10 = n div 10" by simp_all
    with 2 show ?thesis by (simp add: digits_two zfill_def digit_char_0)
  next
    case 3
    with n show ?thesis by (simp add: digits_three zfill_def)
  qed
qed

lemma div_mod_less:
  fixes m n k :: nat
  assumes "m < n"
  shows "m div k < n div k \<or> (m div k = n div k \<and> m mod k < n mod k)"
proof (cases "m div k < n div k")
  case True
  then show ?thesis by simp
next
  case False
  moreover have "m div k \<le> n div k" using assms by (simp add: div_le_mono)
  ultimately have e: "m div k = n div k" by simp
  have "m = k * (m div k) + m mod k" "n = k * (n div k) + n mod k" by simp_all
  with e assms have "m mod k < n mod k" by (metis nat_add_left_cancel_less)
  with e show ?thesis by simp
qed

lemma pad2_less: "m < n \<Longrightarrow> n < 100 \<Longrightarrow> zfill 2 (digits m) < zfill 2 (digits n)"
proof -
  assume a: "m < n" "n < 100"
  have b: "n div 10 < 10" "n mod 10 < 10" using a by simp_all
  have m: "m < 100" using a by simp
  from div_mod_less [OF a(1), of 10] show ?thesis
  proof
    assume "m div 10 < n div 10"
    then show ?thesis using b by (simp add: pad2 [OF m] pad2 [OF a(2)] digit_less)
  next
    assume "m div 10 = n div 10 \<and> m mod 10 < n mod 10"
    then show ?thesis using b by (simp add: pad2 [OF m] pad2 [OF a(2)] digit_less)
  qed
qed

lemma mod100_div10: "(x::nat) mod 100 div 10 = x div 10 mod 10"
proof -
  have "x mod (10 * 10) = 10 * (x div 10 mod 10) + x mod 10" by (rule mod_mult2_eq)
  then show ?thesis by simp
qed

lemma mod100_mod10: "(x::nat) mod 100 mod 10 = x mod 10"
  by (simp add: mod_mod_cancel)

lemma pad3_le: "m \<le> n \<Longrightarrow> n < 1000 \<Longrightarrow> zfill 3 (digits m) \<le> zfill 3 (digits n)"
proof (cases "m = n")
  case True
  then show ?thesis by simp
next
  case False
  assume a: "m \<le> n" "n < 1000"
  with False have l: "m < n" by simp
  have m: "m < 1000" using a by simp
  have b: "n div 100 < 10" "n div 10 mod 10 < 10" "n mod 10 < 10" using a by simp_all
  from div_mod_less [OF l, of 100] show ?thesis
  proof
    assume "m div 100 < n div 100"
    then show ?thesis using b by (simp add: pad3 [OF m] pad3 [OF a(2)] digit_less)
  next
    assume c: "m div 100 = n div 100 \<and> m mod 100 < n mod 100"
    then have "m mod 100 < n mod 100" by simp
    from div_mod_less [OF this, of 10]
    have "m div 10 mod 10 < n div 10 mod 10 \<or> (m div 10 mod 10 = n div 10 mod 10 \<and> m mod 10 < n mod 10)"
      by (simp only: mod100_div10 mod100_mod10)
    then show ?thesis
    proof
      assume "m div 10 mod 10 < n div 10 mod 10"
      then show ?thesis using b c by (simp add: pad3 [OF m] pad3 [OF a(2)] digit_less)
    next
      assume "m div 10 mod 10 = n div 10 mod 10 \<and> m mod 10 < n mod 10"
      then show ?thesis using b c by (simp add: pad3 [OF m] pad3 [OF a(2)] digit_less)
    qed
  qed
qed

lemma le_append_same_length:
  fixes xs ys :: string
  shows "length xs = length ys \<Longrightarrow> (xs @ r \<le> ys @ r') = (xs < ys \<or> (xs = ys \<and> r \<le> r'))"
  by (induction xs ys rule: list_induct2) auto

lemma le_append_less:
  fixes xs ys :: string
  shows "length xs = length ys \<Longrightarrow> xs < ys \<Longrightarrow> xs @ r \<le> ys @ r'"
  by (simp add: le_append_same_length)

lemma le_append_same:
  fixes xs :: string
  shows "r \<le> r' \<Longrightarrow> xs @ r \<le> xs @ r'"
  by (simp add: le_append_same_length)

lemma length_pad2: "n < 100 \<Longrightarrow> length (zfill 2 (digits n)) = 2"
  by (simp add: pad2)

lemma field_le:
  assumes "n' < 100" and "n < n' \<or> (n = n' \<and> r \<le> r')"
  shows "zfill 2 (digits n) @ sep @ r \<le> zfill 2 (digits n') @ sep @ r'"
  using assms(2)
proof
  assume l: "n < n'"
  then have "n < 100" using assms(1) by simp
  then have "length (zfill 2 (digits n)) = length (zfill 2 (digits n'))"
    using assms(1) by (simp only: length_pad2)
  then show ?thesis using pad2_less [OF l assms(1)] by (rule le_append_less)
next
  assume "n = n' \<and> r \<le> r'"
  then have "sep @ r \<le> sep @ r'" "n = n'" by (simp_all add: le_append_same)
  then show ?thesis by (simp only: le_append_same)
qed

lemma render_mono:
  assumes "h' < 100" "m' < 100" "s' < 100" "ms' < 1000"
    and "h < h' \<or> (h = h' \<and> (m < m' \<or> (m = m' \<and> (s < s' \<or> (s = s' \<and> ms \<le> ms')))))"
  shows "zfill 2 (digits h) @ '':'' @ zfill 2 (digits m) @ '':'' @ zfill 2 (digits s) @ '','' @ zfill 3 (digits ms)
       \<le> zfill 2 (digits h') @ '':'' @ zfill 2 (digits m') @ '':'' @ zfill 2 (digits s') @ '','' @ zfill 3 (digits ms')"
proof (rule field_le [OF assms(1)])
  show "h < h' \<or> (h = h' \<and>
      zfill 2 (digits m) @ '':'' @ zfill 2 (digits s) @ '','' @ zfill 3 (digits ms)
      \<le> zfill 2 (digits m') @ '':'' @ zfill 2 (digits s') @ '','' @ zfill 3 (digits ms'))"
  proof (cases "h < h'")
    case True
    then show ?thesis by simp
  next
    case False
    with assms(5) have h: "h = h'"
      and r: "m < m' \<or> (m = m' \<and> (s < s' \<or> (s = s' \<and> ms \<le> ms')))" by auto
    have "zfill 2 (digits m) @ '':'' @ zfill 2 (digits s) @ '','' @ zfill 3 (digits ms)
      \<le> zfill 2 (digits m') @ '':'' @ zfill 2 (digits s') @ '','' @ zfill 3 (digits ms')"
    proof (rule field_le [OF assms(2)])
      show "m < m' \<or> (m = m' \<and>
        zfill 2 (digits s) @ '','' @ zfill 3 (digits ms) \<le> zfill 2 (digits s') @ '','' @ zfill 3 (digits ms'))"
      proof (cases "m < m'")
        case True
        then show ?thesis by simp
      next
        case False
        with r have m: "m = m'" and r2: "s < s' \<or> (s = s' \<and> ms \<le> ms')" by auto
        have "zfill 2 (digits s) @ '','' @ zfill 3 (digits ms) \<le> zfill 2 (digits s') @ '','' @ zfill 3 (digits ms')"
        proof (rule field_le [OF assms(3)])
          show "s < s' \<or> (s = s' \<and> zfill 3 (digits ms) \<le> zfill 3 (digits ms'))"
            using r2 pad3_le [OF _ assms(4), of ms] by blast
        qed
        with m show ?thesis by blast
      qed
    qed
    with h show ?thesis by blast
  qed
qed

lemma fmt_d_nat: "fmt_d w (int n) = zfill w (digits n)"
  by (simp add: fmt_d_def)

lemma srt_time_millis:
  fixes s :: rat
  assumes "0 \<le> s" "s < 2 ^ 53" "is_double s"
  defines "x \<equiv> 1000 * nat \<lfloor>s\<rfloor> + nat \<lfloor>round_double ((s - of_int \<lfloor>s\<rfloor>) * 1000)\<rfloor>"
  shows "seconds_to_srt_time s =
     zfill 2 (digits (x div 1000 div 3600)) @ '':'' @ zfill 2 (digits (x div 1000 div 60 mod 60)) @ '':'' @
     zfill 2 (digits (x div 1000 mod 60)) @ '','' @ zfill 3 (digits (x mod 1000))"
proof -
  define ms where "ms = \<lfloor>round_double ((s - of_int \<lfloor>s\<rfloor>) * 1000)\<rfloor>"
  have ms: "0 \<le> ms" "ms < 1000"
    unfolding ms_def using srt_millis(2,3) [OF assms(1,2,3)] by simp_all
  hence nms: "nat ms < 1000" by simp
  have x: "x = 1000 * nat \<lfloor>s\<rfloor> + nat ms" by (simp add: x_def ms_def)
  have xd: "x div 1000 = nat \<lfloor>s\<rfloor>" unfolding x using nms by simp
  have xm: "x mod 1000 = nat ms" unfolding x using nms by simp
  have f: "\<lfloor>s\<rfloor> = int (x div 1000)" unfolding xd using assms(1) by simp
  have 1: "py_int (float_floordiv s 3600) = int (x div 1000 div 3600)"
    by (simp add: srt_components(1) [OF assms(1,2)] f zdiv_int)
  have 2: "py_int (float_floordiv (float_rem s 3600) 60) = int (x div 1000 div 60 mod 60)"
    by (simp add: srt_components(2) [OF assms(1,2)] f zdiv_int zmod_int)
  have 3: "py_int (float_rem s 60) = int (x div 1000 mod 60)"
    by (simp add: srt_components(3) [OF assms(1,2)] f zmod_int)
  have 4: "py_int (float_mul (float_sub s (int_to_float (py_int s))) 1000) = int (x mod 1000)"
    unfolding srt_millis(1) [OF assms(1,2,3)] ms_def [symmetric] xm using ms(1) by simp
  show ?thesis
    unfolding seconds_to_srt_time_def Let_def 1 2 3 4 fmt_d_nat ..
qed

lemma millis_lex:
  fixes x y :: nat
  assumes "x \<le> y"
  shows "x div 1000 div 3600 < y div 1000 div 3600 \<or> (x div 1000 div 3600 = y div 1000 div 3600 \<and>
      (x div 1000 div 60 mod 60 < y div 1000 div 60 mod 60 \<or> (x div 1000 div 60 mod 60 = y div 1000 div 60 mod 60 \<and>
        (x div 1000 mod 60 < y div 1000 mod 60 \<or> (x div 1000 mod 60 = y div 1000 mod 60 \<and> x mod 1000 \<le> y mod 1000)))))"
proof (cases "x = y")
  case True
  then show ?thesis by simp
next
  case False
  with assms have "x < y" by simp
  from div_mod_less [OF this, of 1000] show ?thesis
  proof
    assume s: "x div 1000 < y div 1000"
    have h: "\<And>z::nat. z div 3600 = z div 60 div 60" by (simp add: div_mult2_eq)
    from div_mod_less [OF s, of 60] show ?thesis
    proof
      assume "x div 1000 div 60 < y div 1000 div 60"
      from div_mod_less [OF this, of 60] show ?thesis
        unfolding h by blast
    next
      assume "x div 1000 div 60 = y div 1000 div 60 \<and> x div 1000 mod 60 < y div 1000 mod 60"
      then show ?thesis unfolding h by simp
    qed
  next
    assume "x div 1000 = y div 1000 \<and> x mod 1000 < y mod 1000"
    then show ?thesis by simp
  qed
qed

text \<open>
  The product with 1000 is rounded to a float before it is truncated. At the floats
  nearest to 0.06, 0.58 and 0.009 the exact product lies just below 60, 580 and 9 and
  rounds to them, so the milliseconds are 060, 580 and 009: one more than the floor of
  the exact thousandths of the float.
\<close>

lemma srt_time_rounds_product:
  "seconds_to_srt_time (round_double (6 / 100)) = ''00:00:00,060'' \<and>
   seconds_to_srt_time (round_double (58 / 100)) = ''00:00:00,580'' \<and>
   seconds_to_srt_time (round_double (9 / 1000)) = ''00:00:00,009'' \<and>
   \<lfloor>round_double (6 / 100) * 1000\<rfloor> = 59 \<and>
   \<lfloor>round_double (58 / 100) * 1000\<rfloor> = 579 \<and>
   \<lfloor>round_double (9 / 1000) * 1000\<rfloor> = 8"
  by code_simp

text \<open>
  C8. For a float of seconds that is not negative, hours, minutes and seconds of the
  timecode are the floor-based decomposition of the whole seconds; the milliseconds are
  the truncation of the float product of the fractional part with 1000, which lies
  between 0 and 999, so they never carry into the seconds. Below 100 hours, where the
  hours field has its two digits, the rendered timecode is monotonic in the
  lexicographic order of strings.
\<close>

theorem srt_time_monotonic_below_100_hours:
  fixes a b s :: rat
  shows "(is_double s \<and> 0 \<le> s \<and> s < 2 ^ 53 \<longrightarrow>
           seconds_to_srt_time s =
             fmt_d 2 (\<lfloor>s\<rfloor> div 3600) @ '':'' @ fmt_d 2 (\<lfloor>s\<rfloor> div 60 mod 60) @ '':'' @
             fmt_d 2 (\<lfloor>s\<rfloor> mod 60) @ '','' @ fmt_d 3 \<lfloor>round_double ((s - of_int \<lfloor>s\<rfloor>) * 1000)\<rfloor> \<and>
           0 \<le> \<lfloor>round_double ((s - of_int \<lfloor>s\<rfloor>) * 1000)\<rfloor> \<and>
           \<lfloor>round_double ((s - of_int \<lfloor>s\<rfloor>) * 1000)\<rfloor> \<le> 999) \<and>
         (is_double a \<and> is_double b \<and> 0 \<le> a \<and> a \<le> b \<and> b < 360000 \<longrightarrow>
           seconds_to_srt_time a \<le> seconds_to_srt_time b)"
proof (intro conjI impI)
  assume h: "is_double s \<and> 0 \<le> s \<and> s < 2 ^ 53"
  then have s: "0 \<le> s" "s < 2 ^ 53" "is_double s" by auto
  show "seconds_to_srt_time s =
             fmt_d 2 (\<lfloor>s\<rfloor> div 3600) @ '':'' @ fmt_d 2 (\<lfloor>s\<rfloor> div 60 mod 60) @ '':'' @
             fmt_d 2 (\<lfloor>s\<rfloor> mod 60) @ '','' @ fmt_d 3 \<lfloor>round_double ((s - of_int \<lfloor>s\<rfloor>) * 1000)\<rfloor>"
    unfolding seconds_to_srt_time_def Let_def
    by (simp only: srt_components [OF s(1,2)] srt_millis(1) [OF s])
  show "0 \<le> \<lfloor>round_double ((s - of_int \<lfloor>s\<rfloor>) * 1000)\<rfloor>"
    by (rule srt_millis(2) [OF s])
  show "\<lfloor>round_double ((s - of_int \<lfloor>s\<rfloor>) * 1000)\<rfloor> \<le> 999"
    using srt_millis(3) [OF s] by simp
next
  assume h: "is_double a \<and> is_double b \<and> 0 \<le> a \<and> a \<le> b \<and> b < 360000"
  then have a: "0 \<le> a" and b: "0 \<le> b" and ab: "a \<le> b" and bb: "b < 360000"
    and da: "is_double a" and db: "is_double b" by auto
  have b53: "b < 2 ^ 53" using bb by simp
  have a53: "a < 2 ^ 53" using ab b53 by simp
  define ma where "ma = nat \<lfloor>round_double ((a - of_int \<lfloor>a\<rfloor>) * 1000)\<rfloor>"
  define mb where "mb = nat \<lfloor>round_double ((b - of_int \<lfloor>b\<rfloor>) * 1000)\<rfloor>"
  have ma: "ma < 1000" unfolding ma_def using srt_millis(3) [OF a a53 da] by linarith
  have mb: "mb < 1000" unfolding mb_def using srt_millis(3) [OF b b53 db] by linarith
  let ?x = "1000 * nat \<lfloor>a\<rfloor> + ma" and ?y = "1000 * nat \<lfloor>b\<rfloor> + mb"
  have fl: "\<lfloor>a\<rfloor> \<le> \<lfloor>b\<rfloor>" using ab by (rule floor_mono)
  have xy: "?x \<le> ?y"
  proof (cases "\<lfloor>a\<rfloor> = \<lfloor>b\<rfloor>")
    case True
    have "ma \<le> mb" unfolding ma_def mb_def using millis_mono [OF True ab] by simp
    then show ?thesis using True by simp
  next
    case False
    have "0 \<le> \<lfloor>a\<rfloor>" using a by simp
    then have "nat \<lfloor>a\<rfloor> < nat \<lfloor>b\<rfloor>" using fl False by linarith
    then have "1000 * nat \<lfloor>a\<rfloor> + 1000 \<le> 1000 * nat \<lfloor>b\<rfloor>" by linarith
    then show ?thesis using ma by linarith
  qed
  have "\<lfloor>b\<rfloor> < 360000" using bb by (simp only: floor_less_numeral)
  then have "nat \<lfloor>b\<rfloor> < 360000" by linarith
  then have y: "?y < 360000000" using mb by linarith
  then have bounds: "?y div 1000 div 3600 < 100" "?y div 1000 div 60 mod 60 < 100"
    "?y div 1000 mod 60 < 100" "?y mod 1000 < 1000"
    by (simp_all add: div_mult2_eq [symmetric] less_mult_imp_div_less)
  show "seconds_to_srt_time a \<le> seconds_to_srt_time b"
    unfolding srt_time_millis [OF a a53 da] srt_time_millis [OF b b53 db]
      ma_def [symmetric] mb_def [symmetric]
    by (rule render_mono [OF bounds millis_lex [OF xy] ])
qed

theorem srt_time_monotonic_below_100_hours_witness:
  "seconds_to_srt_time (1080863910568919 / 18014398509481984) = ''00:00:00,060'' \<and>
   seconds_to_srt_time (1080863910568919 / 18014398509481984) \<le> seconds_to_srt_time (29289 / 8)"
proof -
  let ?a = "1080863910568919 / 18014398509481984 :: rat"
  note t = srt_time_monotonic_below_100_hours [of ?a ?a "29289 / 8"]
  have da: "is_double ?a" by code_simp
  have db: "is_double (29289 / 8)" by code_simp
  have "is_double ?a \<and> is_double (29289 / 8) \<and> 0 \<le> ?a \<and> ?a \<le> 29289 / 8 \<and> (29289 / 8 :: rat) < 360000"
    using da db by simp
  with t have 1: "seconds_to_srt_time ?a \<le> seconds_to_srt_time (29289 / 8)"
    by blast
  have "is_double ?a \<and> 0 \<le> ?a \<and> ?a < 2 ^ 53" using da by simp
  with t have "seconds_to_srt_time ?a =
             fmt_d 2 (\<lfloor>?a\<rfloor> div 3600) @ '':'' @ fmt_d 2 (\<lfloor>?a\<rfloor> div 60 mod 60) @ '':'' @
             fmt_d 2 (\<lfloor>?a\<rfloor> mod 60) @ '','' @ fmt_d 3 \<lfloor>round_double ((?a - of_int \<lfloor>?a\<rfloor>) * 1000)\<rfloor>"
    by blast
  also have "\<dots> = ''00:00:00,060''" by code_simp
  finally show ?thesis using 1 by simp
qed

text \<open>
  From 100 hours on the hours field has three digits, and the order of the strings is
  no longer the order of the times: 99 hours renders above 100 hours.
\<close>

theorem srt_time_not_monotonic_at_100_hours:
  "is_double 356400 \<and> is_double 360000 \<and>
   seconds_to_srt_time 356400 = ''99:00:00,000'' \<and>
   seconds_to_srt_time 360000 = ''100:00:00,000'' \<and>
   \<not> seconds_to_srt_time 356400 \<le> seconds_to_srt_time 360000"
  by code_simp

section \<open>Encoding and decoding subtitles\<close>

lemma srt_blocks_entries:
  "srt_blocks i segs = concat (map (\<lambda>e. srt_block e @ [CHR 0x0A, CHR 0x0A]) (srt_entries i segs))"
  by (induction segs arbitrary: i) (simp_all add: Let_def srt_block_def)

lemma srt_entries_texts:
  "map (\<lambda>e. snd (snd e)) (srt_entries i segs) =
     filter (\<lambda>t. t \<noteq> []) (map (\<lambda>seg. strip (seg_text seg)) segs)"
  by (induction segs arbitrary: i) simp_all

lemma universal_newlines_id: "CHR 0x0D \<notin> set s \<Longrightarrow> universal_newlines s = s"
  by (induction s) auto

lemma split_lf_skip:
  "CHR 0x0A \<notin> set p \<Longrightarrow>
     split_sep_acc [CHR 0x0A] acc (p @ CHR 0x0A # rest) = (rev acc @ p) # split_sep_acc [CHR 0x0A] [] rest"
  by (induction p arbitrary: acc) auto

lemma split_sep_acc_nonempty: "split_sep_acc sep acc s \<noteq> []"
  by (induction s arbitrary: acc) auto

lemma join_cons: "ys \<noteq> [] \<Longrightarrow> join sep (x # ys) = x @ sep @ join sep ys"
  by (cases ys) simp_all

lemma join_split_lf: "join [CHR 0x0A] (split_sep_acc [CHR 0x0A] acc s) = rev acc @ s"
  by (induction s arbitrary: acc) (auto simp: join_cons split_sep_acc_nonempty)

lemma split2_skip_plain:
  "CHR 0x0A \<notin> set p \<Longrightarrow>
     split_sep_acc [CHR 0x0A, CHR 0x0A] acc (p @ rest) = split_sep_acc [CHR 0x0A, CHR 0x0A] (rev p @ acc) rest"
  by (induction p arbitrary: acc) auto

lemma split2_skip_single:
  "d \<noteq> CHR 0x0A \<Longrightarrow>
     split_sep_acc [CHR 0x0A, CHR 0x0A] acc (CHR 0x0A # d # rest) =
     split_sep_acc [CHR 0x0A, CHR 0x0A] (CHR 0x0A # acc) (d # rest)"
  by simp

lemma split2_skip_text:
  "\<not> sublist [CHR 0x0A, CHR 0x0A] t \<Longrightarrow> t \<noteq> [] \<Longrightarrow> last t \<noteq> CHR 0x0A \<Longrightarrow>
     split_sep_acc [CHR 0x0A, CHR 0x0A] acc (t @ rest) = split_sep_acc [CHR 0x0A, CHR 0x0A] (rev t @ acc) rest"
proof (induction t arbitrary: acc)
  case Nil
  then show ?case by simp
next
  case (Cons c t)
  show ?case
  proof (cases "t = []")
    case True
    with Cons.prems show ?thesis by simp
  next
    case False
    then obtain d t' where t: "t = d # t'" by (cases t) auto
    have np: "\<not> prefix [CHR 0x0A, CHR 0x0A] (c # t)" and ns: "\<not> sublist [CHR 0x0A, CHR 0x0A] t"
      using Cons.prems(1) by (simp_all add: sublist_Cons_right)
    from np t have "\<not> prefix [CHR 0x0A, CHR 0x0A] (c # t @ rest)" by simp
    then have "split_sep_acc [CHR 0x0A, CHR 0x0A] acc (c # t @ rest) =
        split_sep_acc [CHR 0x0A, CHR 0x0A] (c # acc) (t @ rest)"
      by (subst split_sep_acc.simps) (simp only: if_False)
    moreover have "split_sep_acc [CHR 0x0A, CHR 0x0A] (c # acc) (t @ rest) =
        split_sep_acc [CHR 0x0A, CHR 0x0A] (rev t @ c # acc) rest"
      using Cons.IH [OF ns False] Cons.prems(3) False by simp
    ultimately show ?thesis by simp
  qed
qed

lemma lf_isspace: "isspace CHR 0x0A"
  by (simp add: isspace_def)

lemma split2_skip_block:
  assumes "good_entry e"
  shows "split_sep_acc [CHR 0x0A, CHR 0x0A] acc (srt_block e @ rest) =
         split_sep_acc [CHR 0x0A, CHR 0x0A] (rev (srt_block e) @ acc) rest"
proof -
  obtain idx tc body where e: "e = (idx, tc, body)" by (cases e) auto
  from assms e have g: "CHR 0x0A \<notin> set idx" "tc \<noteq> []" "CHR 0x0A \<notin> set tc" "body \<noteq> []"
    "\<not> isspace (hd body)" "\<not> isspace (last body)" "\<not> sublist [CHR 0x0A, CHR 0x0A] body"
    by (simp_all add: good_entry_def)
  obtain d tc' where tc: "tc = d # tc'" using g(2) by (cases tc) auto
  with g(3) have d: "d \<noteq> CHR 0x0A" by auto
  obtain x body' where tx: "body = x # body'" using g(4) by (cases body) auto
  with g(5) lf_isspace have x: "x \<noteq> CHR 0x0A" by auto
  from g(6) lf_isspace have l: "last body \<noteq> CHR 0x0A" by auto
  have "split_sep_acc [CHR 0x0A, CHR 0x0A] acc (idx @ CHR 0x0A # tc @ CHR 0x0A # body @ rest) =
      split_sep_acc [CHR 0x0A, CHR 0x0A] (rev idx @ acc) (CHR 0x0A # tc @ CHR 0x0A # body @ rest)"
    by (rule split2_skip_plain [OF g(1)])
  also have "\<dots> = split_sep_acc [CHR 0x0A, CHR 0x0A] (CHR 0x0A # rev idx @ acc) (tc @ CHR 0x0A # body @ rest)"
    unfolding tc append_Cons by (rule split2_skip_single [OF d])
  also have "\<dots> = split_sep_acc [CHR 0x0A, CHR 0x0A] (rev tc @ CHR 0x0A # rev idx @ acc) (CHR 0x0A # body @ rest)"
    by (rule split2_skip_plain [OF g(3)])
  also have "\<dots> = split_sep_acc [CHR 0x0A, CHR 0x0A] (CHR 0x0A # rev tc @ CHR 0x0A # rev idx @ acc) (body @ rest)"
    unfolding tx append_Cons by (rule split2_skip_single [OF x])
  also have "\<dots> = split_sep_acc [CHR 0x0A, CHR 0x0A] (rev body @ CHR 0x0A # rev tc @ CHR 0x0A # rev idx @ acc) rest"
    by (rule split2_skip_text [OF g(7) g(4) l])
  finally show ?thesis by (simp add: e srt_block_def)
qed

lemma block_ends:
  assumes "good_entry e"
  shows "srt_block e \<noteq> []" "\<not> isspace (hd (srt_block e))" "\<not> isspace (last (srt_block e))"
proof -
  obtain idx tc body where e: "e = (idx, tc, body)" by (cases e) auto
  from assms e have g: "idx \<noteq> []" "\<not> isspace (hd idx)" "body \<noteq> []" "\<not> isspace (last body)"
    by (simp_all add: good_entry_def)
  show "srt_block e \<noteq> []" using g by (simp add: e srt_block_def)
  show "\<not> isspace (hd (srt_block e))" using g by (simp add: e srt_block_def)
  show "\<not> isspace (last (srt_block e))" using g by (simp add: e srt_block_def)
qed

lemma strip_block: "good_entry e \<Longrightarrow> strip (srt_block e) = srt_block e"
  by (simp add: block_ends strip_id)

lemma lines_block:
  assumes "good_entry (idx, tc, body)"
  shows "split_sep [CHR 0x0A] (srt_block (idx, tc, body)) = idx # tc # split_sep [CHR 0x0A] body"
proof -
  from assms have g: "CHR 0x0A \<notin> set idx" "CHR 0x0A \<notin> set tc" by (simp_all add: good_entry_def)
  have "split_sep_acc [CHR 0x0A] [] (idx @ CHR 0x0A # tc @ CHR 0x0A # body) =
      idx # split_sep_acc [CHR 0x0A] [] (tc @ CHR 0x0A # body)"
    using split_lf_skip [OF g(1), of "[]"] by simp
  also have "\<dots> = idx # tc # split_sep_acc [CHR 0x0A] [] body"
    using split_lf_skip [OF g(2), of "[]"] by simp
  finally show ?thesis by (simp add: split_sep_def srt_block_def)
qed

lemma text_lines_blocks:
  "list_all good_entry es \<Longrightarrow> srt_text_lines (map srt_block es) = map (\<lambda>e. snd (snd e)) es"
proof (induction es)
  case Nil
  show ?case by simp
next
  case (Cons e es)
  obtain idx tc body where e: "e = (idx, tc, body)" by (cases e) auto
  from Cons.prems have g: "good_entry (idx, tc, body)" by (simp add: e)
  have l: "split_sep [CHR 0x0A] (strip (srt_block e)) = idx # tc # split_sep [CHR 0x0A] body"
    using g by (simp add: e strip_block lines_block)
  have n: "split_sep [CHR 0x0A] body \<noteq> []" by (simp add: split_sep_def split_sep_acc_nonempty)
  then have "3 \<le> length (idx # tc # split_sep [CHR 0x0A] body)"
    by (cases "split_sep [CHR 0x0A] body") simp_all
  moreover have "join [CHR 0x0A] (drop 2 (idx # tc # split_sep [CHR 0x0A] body)) = body"
    using join_split_lf [of "[]" body] by (simp add: split_sep_def)
  ultimately show ?case using Cons l by (simp add: Let_def e)
qed

lemma strip_trailing:
  assumes "s \<noteq> []" "\<not> isspace (hd s)" "\<not> isspace (last s)" "list_all isspace ws"
  shows "strip (s @ ws) = s"
proof -
  have 1: "dropWhile isspace (s @ ws) = s @ ws"
    using assms(1,2) by (cases s) auto
  have "dropWhile isspace (rev ws @ rev s) = dropWhile isspace (rev s)"
    using assms(4) by (intro dropWhile_append2) (simp add: list_all_iff)
  also have "\<dots> = rev s"
    using assms(1,3) by (cases "rev s") (auto simp: hd_rev)
  finally show ?thesis by (simp add: strip_def 1)
qed

lemma blocks_join:
  "es \<noteq> [] \<Longrightarrow>
     concat (map (\<lambda>e. srt_block e @ [CHR 0x0A, CHR 0x0A]) es) =
     join [CHR 0x0A, CHR 0x0A] (map srt_block es) @ [CHR 0x0A, CHR 0x0A]"
proof (induction es)
  case Nil
  then show ?case by simp
next
  case (Cons e es)
  then show ?case by (cases es) simp_all
qed

lemma joined_ends:
  "es \<noteq> [] \<Longrightarrow> list_all good_entry es \<Longrightarrow>
     join [CHR 0x0A, CHR 0x0A] (map srt_block es) \<noteq> [] \<and>
     \<not> isspace (hd (join [CHR 0x0A, CHR 0x0A] (map srt_block es))) \<and>
     \<not> isspace (last (join [CHR 0x0A, CHR 0x0A] (map srt_block es)))"
proof (induction es)
  case Nil
  then show ?case by simp
next
  case (Cons e es)
  show ?case
  proof (cases es)
    case Nil
    with Cons.prems show ?thesis by (simp add: block_ends)
  next
    case (Cons e' es')
    with Cons.IH Cons.prems have
      "join [CHR 0x0A, CHR 0x0A] (map srt_block es) \<noteq> []"
      "\<not> isspace (last (join [CHR 0x0A, CHR 0x0A] (map srt_block es)))" by simp_all
    moreover have "srt_block e \<noteq> []" "\<not> isspace (hd (srt_block e))"
      using Cons.prems by (simp_all add: block_ends)
    ultimately show ?thesis using Cons by simp
  qed
qed

lemma split_joined_blocks:
  "es \<noteq> [] \<Longrightarrow> list_all good_entry es \<Longrightarrow>
     split_sep_acc [CHR 0x0A, CHR 0x0A] [] (join [CHR 0x0A, CHR 0x0A] (map srt_block es)) =
     map srt_block es"
proof (induction es)
  case Nil
  then show ?case by simp
next
  case (Cons e es)
  from Cons.prems have g: "good_entry e" by simp
  show ?case
  proof (cases es)
    case Nil
    then show ?thesis using split2_skip_block [OF g, of "[]" "[]"] by simp
  next
    case (Cons e' es')
    then have "join [CHR 0x0A, CHR 0x0A] (map srt_block (e # es)) =
        srt_block e @ CHR 0x0A # CHR 0x0A # join [CHR 0x0A, CHR 0x0A] (map srt_block es)"
      by simp
    moreover have "split_sep_acc [CHR 0x0A, CHR 0x0A] []
        (srt_block e @ CHR 0x0A # CHR 0x0A # join [CHR 0x0A, CHR 0x0A] (map srt_block es)) =
        srt_block e # split_sep_acc [CHR 0x0A, CHR 0x0A] [] (join [CHR 0x0A, CHR 0x0A] (map srt_block es))"
      using split2_skip_block [OF g, of "[]"] by simp
    ultimately show ?thesis using Cons.IH Cons.prems Cons by simp
  qed
qed

lemma block_no_cr: "good_entry e \<Longrightarrow> CHR 0x0D \<notin> set (srt_block e)"
  by (cases e) (simp add: good_entry_def srt_block_def)

lemma decode_blocks:
  assumes "list_all good_entry es"
  shows "srt_text (universal_newlines (concat (map (\<lambda>e. srt_block e @ [CHR 0x0A, CHR 0x0A]) es))) =
         join '' '' (map (\<lambda>e. snd (snd e)) es)"
proof (cases "es = []")
  case True
  then show ?thesis by (simp add: srt_text_def strip_def)
next
  case False
  let ?content = "concat (map (\<lambda>e. srt_block e @ [CHR 0x0A, CHR 0x0A]) es)"
  let ?j = "join [CHR 0x0A, CHR 0x0A] (map srt_block es)"
  have "CHR 0x0D \<notin> set ?content"
    using assms block_no_cr by (auto simp: list_all_iff)
  then have u: "universal_newlines ?content = ?content" by (rule universal_newlines_id)
  have c: "?content = ?j @ [CHR 0x0A, CHR 0x0A]" using False by (rule blocks_join)
  have "list_all isspace [CHR 0x0A, CHR 0x0A]" by (simp add: lf_isspace)
  with joined_ends [OF False assms] have s: "strip (?j @ [CHR 0x0A, CHR 0x0A]) = ?j"
    by (intro strip_trailing) simp_all
  have ne: "?j \<noteq> []" using joined_ends [OF False assms] by simp
  have "srt_text ?content = join '' '' (srt_text_lines (split_sep [CHR 0x0A, CHR 0x0A] ?j))"
    unfolding srt_text_def c s using ne by simp
  also have "\<dots> = join '' '' (map (\<lambda>e. snd (snd e)) es)"
    using split_joined_blocks [OF False assms] text_lines_blocks [OF assms]
    by (simp add: split_sep_def)
  finally show ?thesis using u by simp
qed

lemma digit_char_mem: "n < 10 \<Longrightarrow> digit_char n \<in> set ''0123456789''"
  unfolding digit_char_def by (rule nth_mem) simp

lemma digits_nonempty: "digits n \<noteq> []"
  by (subst digits.simps) simp

lemma digit_char_in: "n < 10 \<Longrightarrow> digit_char n \<in> digit_chars"
  unfolding digit_chars_def by (rule digit_char_mem)

lemma set_digits: "set (digits n) \<subseteq> digit_chars"
proof (induction n rule: digits.induct)
  case (1 n)
  show ?case
  proof (cases "n < 10")
    case True
    have "digits n = [digit_char n]" using True by (subst digits.simps) simp
    then show ?thesis using digit_char_in [OF True] by simp
  next
    case False
    have "n mod 10 < 10" by simp
    then have m: "digit_char (n mod 10) \<in> digit_chars" by (rule digit_char_in)
    have "digits n = digits (n div 10) @ [digit_char (n mod 10)]"
      using False by (subst digits.simps) simp
    with m 1 [OF False] show ?thesis by simp
  qed
qed

lemma digit_chars_plain: "c \<in> digit_chars \<Longrightarrow> \<not> isspace c \<and> c \<in> timecode_chars"
  by (auto simp: digit_chars_def timecode_chars_def isspace_def)

lemma timecode_chars_line: "c \<in> timecode_chars \<Longrightarrow> c \<noteq> CHR 0x0A \<and> c \<noteq> CHR 0x0D"
  by (auto simp: timecode_chars_def)

lemma zero_timecode: "CHR ''0'' \<in> timecode_chars" "CHR ''-'' \<in> timecode_chars"
  "CHR '':'' \<in> timecode_chars" "CHR '','' \<in> timecode_chars" "CHR '' '' \<in> timecode_chars"
  "CHR ''>'' \<in> timecode_chars"
  by (simp_all add: timecode_chars_def)

lemma set_digits_timecode: "set (digits n) \<subseteq> timecode_chars"
  using set_digits [of n] digit_chars_plain by blast

lemma set_fmt_d: "set (fmt_d w i) \<subseteq> timecode_chars"
proof (cases "i < 0")
  case True
  then have "fmt_d w i = CHR ''-'' # replicate (w - 1 - length (digits (nat (- i)))) CHR ''0'' @ digits (nat (- i))"
    by (simp add: fmt_d_def zfill_def)
  then show ?thesis using set_digits_timecode [of "nat (- i)"] zero_timecode(1,2)
    by (auto simp only: set_simps set_append set_replicate_conv_if split: if_splits)
next
  case False
  then have "fmt_d w i = replicate (w - length (digits (nat i))) CHR ''0'' @ digits (nat i)"
    by (simp add: fmt_d_def zfill_def)
  then show ?thesis using set_digits_timecode [of "nat i"] zero_timecode(1)
    by (auto simp only: set_simps set_append set_replicate_conv_if split: if_splits)
qed

lemma set_srt_time: "set (seconds_to_srt_time x) \<subseteq> timecode_chars"
  unfolding seconds_to_srt_time_def Let_def
  using set_fmt_d zero_timecode by (simp only: set_append set_simps Un_subset_iff insert_subset empty_subsetI simp_thms)

lemma set_timecode_line:
  "set (seconds_to_srt_time a @ '' --> '' @ seconds_to_srt_time b) \<subseteq> timecode_chars"
  using set_srt_time [of a] set_srt_time [of b] zero_timecode
  by (simp only: set_append set_simps Un_subset_iff insert_subset empty_subsetI simp_thms)

lemma good_index:
  "digits i \<noteq> [] \<and> \<not> isspace (hd (digits i)) \<and> CHR 0x0A \<notin> set (digits i) \<and> CHR 0x0D \<notin> set (digits i)"
proof -
  have "hd (digits i) \<in> set (digits i)" using digits_nonempty by simp
  with set_digits [of i] have "hd (digits i) \<in> digit_chars" by blast
  then have "\<not> isspace (hd (digits i))" using digit_chars_plain by blast
  moreover have "CHR 0x0A \<notin> set (digits i)" "CHR 0x0D \<notin> set (digits i)"
    using set_digits_timecode [of i] timecode_chars_line by blast+
  ultimately show ?thesis using digits_nonempty by simp
qed

lemma good_timecodes:
  "seconds_to_srt_time a @ '' --> '' @ seconds_to_srt_time b \<noteq> [] \<and>
   CHR 0x0A \<notin> set (seconds_to_srt_time a @ '' --> '' @ seconds_to_srt_time b) \<and>
   CHR 0x0D \<notin> set (seconds_to_srt_time a @ '' --> '' @ seconds_to_srt_time b)"
proof -
  have "seconds_to_srt_time a @ '' --> '' @ seconds_to_srt_time b \<noteq> []" by simp
  moreover have "CHR 0x0A \<notin> set (seconds_to_srt_time a @ '' --> '' @ seconds_to_srt_time b)"
    "CHR 0x0D \<notin> set (seconds_to_srt_time a @ '' --> '' @ seconds_to_srt_time b)"
    using set_timecode_line [of a b] timecode_chars_line by blast+
  ultimately show ?thesis by blast
qed

lemma entries_good:
  "list_all (\<lambda>seg. \<not> sublist [CHR 0x0A, CHR 0x0A] (strip (seg_text seg)) \<and>
      CHR 0x0D \<notin> set (strip (seg_text seg))) segs \<Longrightarrow>
   list_all good_entry (srt_entries i segs)"
proof (induction segs arbitrary: i)
  case Nil
  show ?case by simp
next
  case (Cons seg segs)
  then have r: "list_all good_entry (srt_entries (Suc i) segs)" by simp
  show ?case
  proof (cases "strip (seg_text seg) = []")
    case True
    with r show ?thesis by simp
  next
    case False
    with strip_ends [of "seg_text seg"] have
      "\<not> isspace (hd (strip (seg_text seg)))" "\<not> isspace (last (strip (seg_text seg)))" by simp_all
    with False Cons.prems good_index [of i] good_timecodes [of "seg_start seg" "seg_end seg"]
    have "good_entry (digits i,
        seconds_to_srt_time (seg_start seg) @ '' --> '' @ seconds_to_srt_time (seg_end seg),
        strip (seg_text seg))"
      unfolding good_entry_def by simp
    with False r show ?thesis by simp
  qed
qed

text \<open>
  C4. When no trimmed segment text contains a blank line or a carriage return, encoding
  the segments to a subtitle file and decoding that file gives the trimmed texts that are
  not empty, in their order, joined by single spaces, whatever the start and end times
  are. The empty list of segments encodes to the empty string and decodes to the empty
  string.
\<close>

theorem srt_roundtrip_joins_texts:
  assumes "srt_path \<notin> unwritable fs"
    and "list_all (\<lambda>seg. \<not> sublist [CHR 0x0A, CHR 0x0A] (strip (seg_text seg)) \<and>
           CHR 0x0D \<notin> set (strip (seg_text seg))) segments"
  shows "srt_roundtrip fs segments srt_path =
           Inr (join '' '' (filter (\<lambda>t. t \<noteq> []) (map (\<lambda>seg. strip (seg_text seg)) segments))) \<and>
         srt_blocks 1 [] = [] \<and> srt_roundtrip fs [] srt_path = Inr []"
proof -
  have r: "srt_roundtrip fs segs srt_path = Inr (srt_text (universal_newlines (srt_blocks 1 segs)))" for segs
    using assms(1)
    by (simp add: srt_roundtrip_def write_srt_from_segments_def write_text_def extract_text_from_srt_def)
  have "srt_text (universal_newlines (srt_blocks 1 segments)) =
      join '' '' (map (\<lambda>e. snd (snd e)) (srt_entries 1 segments))"
    unfolding srt_blocks_entries by (rule decode_blocks [OF entries_good [OF assms(2)] ])
  then have "srt_roundtrip fs segments srt_path =
      Inr (join '' '' (filter (\<lambda>t. t \<noteq> []) (map (\<lambda>seg. strip (seg_text seg)) segments)))"
    by (simp add: r srt_entries_texts)
  moreover have "srt_roundtrip fs [] srt_path = Inr []"
    by (simp add: r srt_text_def strip_def)
  ultimately show ?thesis by simp
qed

theorem srt_roundtrip_joins_texts_witness:
  "srt_roundtrip empty_filesystem
     [\<lparr>seg_start = 0, seg_end = 3 / 2, seg_text = '' hello''\<rparr>,
      \<lparr>seg_start = 3 / 2, seg_end = 13 / 4, seg_text = '' ''\<rparr>,
      \<lparr>seg_start = 13 / 4, seg_end = 4, seg_text = '' big\<newline>world ''\<rparr>] ''lecture.srt'' =
   Inr ''hello big\<newline>world''"
proof -
  let ?segs = "[\<lparr>seg_start = 0, seg_end = 3 / 2, seg_text = '' hello''\<rparr>,
      \<lparr>seg_start = 3 / 2, seg_end = 13 / 4, seg_text = '' ''\<rparr>,
      \<lparr>seg_start = 13 / 4, seg_end = 4, seg_text = '' big\<newline>world ''\<rparr>]"
  have 1: "''lecture.srt'' \<notin> unwritable empty_filesystem"
    by (simp add: empty_filesystem_def)
  have 2: "list_all (\<lambda>seg. \<not> sublist [CHR 0x0A, CHR 0x0A] (strip (seg_text seg)) \<and>
           CHR 0x0D \<notin> set (strip (seg_text seg))) ?segs"
    by code_simp
  have 3: "join '' '' (filter (\<lambda>t. t \<noteq> []) (map (\<lambda>seg. strip (seg_text seg)) ?segs)) =
      ''hello big\<newline>world''"
    by code_simp
  from srt_roundtrip_joins_texts [OF 1 2] 3 show ?thesis by simp
qed

text \<open>
  A blank line inside a text ends the block for the decoder: what follows it is a block
  of fewer than three lines, which is skipped.
\<close>

theorem srt_roundtrip_loses_text_after_blank_line:
  "srt_roundtrip empty_filesystem
     [\<lparr>seg_start = 0, seg_end = 1, seg_text = ''a\<newline>\<newline>b''\<rparr>] ''lecture.srt'' = Inr ''a''"
  by code_simp

section \<open>Template fallback\<close>

lemma replace_single:
  "replace [x] new s = concat (map (\<lambda>c. if c = x then new else [c]) s)"
  by (induction s) auto

lemma escape_latex_Nil: "escape_latex [] = []"
  by (simp add: escape_latex_def)

lemma escape_latex_append: "escape_latex (a @ b) = escape_latex a @ escape_latex b"
  by (simp add: escape_latex_def replace_single)

lemma escape_latex_single: "escape_latex [c] = escape_char c"
proof -
  consider "c = CHR ''&''" | "c = CHR ''%''" | "c = CHR ''$''" | "c = CHR ''#''" | "c = CHR ''_''"
    | "c = CHR ''{''" | "c = CHR ''}''"
    | "c \<noteq> CHR ''&''" "c \<noteq> CHR ''%''" "c \<noteq> CHR ''$''" "c \<noteq> CHR ''#''" "c \<noteq> CHR ''_''"
      "c \<noteq> CHR ''{''" "c \<noteq> CHR ''}''"
    by blast
  then show ?thesis
    by cases (simp_all add: escape_latex_def replace_single escape_char_def)
qed

lemma escape_latex_chars: "escape_latex s = concat (map escape_char s)"
proof (induction s)
  case Nil
  show ?case by (simp add: escape_latex_Nil)
next
  case (Cons c s)
  have "escape_latex (c # s) = escape_latex [c] @ escape_latex s"
    using escape_latex_append [of "[c]" s] by simp
  with Cons show ?case by (simp add: escape_latex_single)
qed

lemma template_body_sections:
  "template_body n ps =
     concat (map (\<lambda>i. [CHR 0x5C] @ ''section{Topic '' @ digits (n + i) @ ''}'' @ [CHR 0x0A] @
                      format_paragraph_for_latex (ps ! i) @ [CHR 0x0A, CHR 0x0A]) [0..<length ps])"
proof (induction ps arbitrary: n)
  case Nil
  show ?case by simp
next
  case (Cons p ps)
  have "[0..<length (p # ps)] = 0 # map Suc [0..<length ps]"
    by (simp only: length_Cons upt_conv_Cons [OF zero_less_Suc] map_Suc_upt)
  then show ?case using Cons [of "Suc n"] by (simp add: comp_def del: upt_Suc)
qed

lemma lower_letter_isword: "lowercase_letter (lower_char x) \<Longrightarrow> isword x"
  by (cases x) (auto simp: lower_char_def isword_def lowercase_letter_def split: if_splits)

lemma lower_lowercase: "lowercase_letter a \<Longrightarrow> lower_char a = a"
  by (cases a) (auto simp: lower_char_def lowercase_letter_def split: if_splits)

lemma lower_lowercase_list: "list_all lowercase_letter p \<Longrightarrow> lower p = p"
  by (induction p) (simp_all add: lower_def lower_lowercase)

lemma word_boundary_after_word:
  "word_boundary True s \<longleftrightarrow> takeWhile isword s = []"
  by (cases s) (simp_all add: word_boundary_def)

lemma keyword_matches_run:
  "list_all lowercase_letter p \<Longrightarrow> p \<noteq> [] \<Longrightarrow>
     (prefix p (lower s) \<and>
      word_boundary (isword (last (take (length p) s))) (drop (length p) s)) \<longleftrightarrow>
     lower (takeWhile isword s) = p"
proof (induction p arbitrary: s)
  case Nil
  then show ?case by simp
next
  case (Cons a p)
  from Cons.prems have a: "lowercase_letter a" and lp: "list_all lowercase_letter p" by simp_all
  show ?case
  proof (cases s)
    case Nil
    then show ?thesis by (simp add: lower_def)
  next
    case (Cons x s')
    show ?thesis
    proof (cases "lower_char x = a")
      case False
      then show ?thesis using Cons by (auto simp: lower_def)
    next
      case True
      with a have w: "isword x" using lower_letter_isword by blast
      show ?thesis
      proof (cases "p = []")
        case True
        then show ?thesis
          using Cons \<open>lower_char x = a\<close> w
          by (simp add: lower_def word_boundary_after_word)
      next
        case False
        note IH = Cons.IH [OF lp False, of s']
        show ?thesis
        proof (cases "s' = []")
          case True
          then show ?thesis using Cons False w by (auto simp: lower_def)
        next
          case ne: False
          from False have "take (length p) s' \<noteq> []" using ne by (cases p; cases s') simp_all
          then have "last (take (length (a # p)) s) = last (take (length p) s')"
            using Cons by simp
          then show ?thesis
            using IH Cons \<open>lower_char x = a\<close> w by (simp add: lower_def)
        qed
      qed
    qed
  qed
qed

lemma match_alt_run:
  "list_all (\<lambda>p. p \<noteq> [] \<and> list_all lowercase_letter p) alts \<Longrightarrow>
     match_alt alts s =
       (if lower (takeWhile isword s) \<in> set alts then Some (lower (takeWhile isword s)) else None)"
proof (induction alts)
  case Nil
  show ?case by simp
next
  case (Cons p alts)
  then have p: "p \<noteq> []" "list_all lowercase_letter p" by simp_all
  have "(p \<noteq> [] \<and> prefix (lower p) (lower s) \<and>
      word_boundary (isword (last (take (length p) s))) (drop (length p) s)) \<longleftrightarrow>
     lower (takeWhile isword s) = p"
    using keyword_matches_run [OF p(2) p(1), of s] p(1) by (simp add: lower_lowercase_list [OF p(2)])
  then show ?case using Cons by auto
qed

lemma takeWhile_after_dropWhile: "takeWhile P (dropWhile P xs) = []"
  by (induction xs) auto

lemma sub_words_inside_run:
  "list_all isword w \<Longrightarrow> sub_words alts f True (w @ rest) = w @ sub_words alts f True rest"
  by (induction w) (simp_all add: word_boundary_def)

lemma match_alt_nonword:
  assumes "list_all (\<lambda>p. p \<noteq> [] \<and> list_all lowercase_letter p) alts" and "\<not> isword c"
  shows "match_alt alts (c # cs) = None" and "lower [c] \<notin> set alts"
proof -
  have "takeWhile isword (c # cs) = []" using assms(2) by simp
  moreover have "[] \<notin> set alts" using assms(1) by (auto simp: list_all_iff)
  ultimately show "match_alt alts (c # cs) = None"
    using match_alt_run [OF assms(1), of "c # cs"] by (simp add: lower_def)
  show "lower [c] \<notin> set alts"
  proof
    assume "lower [c] \<in> set alts"
    with assms(1) have "list_all lowercase_letter (lower [c])" by (auto simp: list_all_iff)
    then have "lowercase_letter (lower_char c)" by (simp add: lower_def)
    with assms(2) lower_letter_isword show False by blast
  qed
qed

lemma sub_words_runs:
  assumes "list_all (\<lambda>p. p \<noteq> [] \<and> list_all lowercase_letter p) alts"
  shows "sub_words alts f False s =
           concat (map (\<lambda>r. if lower r \<in> set alts then f r else r) (word_runs s)) \<and>
         (takeWhile isword s = [] \<longrightarrow>
          sub_words alts f True s =
            concat (map (\<lambda>r. if lower r \<in> set alts then f r else r) (word_runs s)))"
proof (induction s rule: word_runs.induct)
  case 1
  show ?case by simp
next
  case (2 c cs)
  let ?E = "\<lambda>s. concat (map (\<lambda>r. if lower r \<in> set alts then f r else r) (word_runs s))"
  show ?case
  proof (cases "isword c")
    case False
    note n = match_alt_nonword [OF assms False]
    from 2(2) [OF False] have IH: "sub_words alts f False cs = ?E cs" by simp
    have "sub_words alts f pw (c # cs) = c # sub_words alts f False cs" for pw
      using n(1) [of cs] False by simp
    moreover have "?E (c # cs) = c # ?E cs"
      using False n(2) by simp
    ultimately show ?thesis using IH by simp
  next
    case True
    let ?run = "c # takeWhile isword cs" and ?rest = "dropWhile isword cs"
    have tw: "takeWhile isword (c # cs) = ?run" using True by simp
    have rest0: "takeWhile isword ?rest = []"
      by (rule takeWhile_after_dropWhile)
    from 2(1) [OF True] rest0 have IH: "sub_words alts f True ?rest = ?E ?rest" by simp
    have E: "?E (c # cs) = (if lower ?run \<in> set alts then f ?run else ?run) @ ?E ?rest"
      using True by simp
    have wb: "word_boundary False (c # cs)" using True by (simp add: word_boundary_def)
    have m: "match_alt alts (c # cs) = (if lower ?run \<in> set alts then Some (lower ?run) else None)"
      using match_alt_run [OF assms, of "c # cs"] tw by simp
    have split: "cs = takeWhile isword cs @ ?rest" by simp
    have "sub_words alts f False (c # cs) = ?E (c # cs)"
    proof (cases "lower ?run \<in> set alts")
      case in_alts: True
      have len: "length (lower ?run) = Suc (length (takeWhile isword cs))" by (simp add: lower_def)
      have tk: "take (length (lower ?run)) (c # cs) = ?run"
        unfolding len using split by (metis append_eq_conv_conj take_Suc_Cons)
      have dr: "drop (length (lower ?run) - 1) cs = ?rest"
        unfolding len using split by (metis append_eq_conv_conj diff_Suc_1)
      have lw: "isword (last ?run)"
        using True by (metis last_in_set list.distinct(1) set_ConsD set_takeWhileD)
      have "sub_words alts f False (c # cs) = f ?run @ sub_words alts f True ?rest"
        using wb m in_alts tk dr lw by simp
      then show ?thesis using IH E in_alts by simp
    next
      case False
      then have "sub_words alts f False (c # cs) = c # sub_words alts f True cs"
        using wb m True by simp
      also have "sub_words alts f True cs = takeWhile isword cs @ sub_words alts f True ?rest"
        using sub_words_inside_run [of "takeWhile isword cs" alts f ?rest]
        by (simp add: list_all_iff) (meson set_takeWhileD)
      finally show ?thesis using IH E False by simp
    qed
    then show ?thesis using True by simp
  qed
qed

lemma bold_keywords_lowercase:
  "list_all (\<lambda>p. p \<noteq> [] \<and> list_all lowercase_letter p) bold_keywords"
  by (simp add: bold_keywords_def lowercase_letter_def)

lemma format_paragraph_emphasize:
  "format_paragraph_for_latex paragraph = emphasize (concat (map escape_char paragraph))"
  using sub_words_runs [OF bold_keywords_lowercase, of textbf "escape_latex paragraph"]
  by (simp add: format_paragraph_for_latex_def emphasize_def escape_latex_chars)

lemma template_paragraphs_blocks:
  "template_paragraphs text = filter (\<lambda>b. b \<noteq> []) (map strip (split_sep [CHR 0x0A, CHR 0x0A] text))"
  by (simp add: template_paragraphs_def filter_map comp_def)

lemma template_body_take:
  "template_body 1 (take 5 ps) =
     concat (map (\<lambda>i. [CHR 0x5C] @ ''section{Topic '' @ digits (Suc i) @ ''}'' @ [CHR 0x0A] @
                      emphasize (concat (map escape_char (ps ! i))) @ [CHR 0x0A, CHR 0x0A])
               [0..<min 5 (length ps)])"
proof -
  have "map (\<lambda>i. [CHR 0x5C] @ ''section{Topic '' @ digits (1 + i) @ ''}'' @ [CHR 0x0A] @
                      format_paragraph_for_latex (take 5 ps ! i) @ [CHR 0x0A, CHR 0x0A])
               [0..<length (take 5 ps)] =
        map (\<lambda>i. [CHR 0x5C] @ ''section{Topic '' @ digits (Suc i) @ ''}'' @ [CHR 0x0A] @
                      emphasize (concat (map escape_char (ps ! i))) @ [CHR 0x0A, CHR 0x0A])
               [0..<min 5 (length ps)]"
    by (rule map_cong) (simp_all add: format_paragraph_emphasize min.commute)
  then show ?thesis by (simp only: template_body_sections)
qed

text \<open>
  C7. The template fallback splits the text at blank lines, trims the blocks and keeps
  those that are not empty; for each of the first five, numbered from 1, it emits the
  header \<open>Topic N\<close> and the block with each of the seven characters \<open>& % $ # _ { }\<close>
  escaped on its own and each run of word characters that is one of the keywords,
  whatever its case, wrapped in bold markup.
\<close>

theorem template_fallback_sections:
  "template_paragraphs text =
     filter (\<lambda>b. b \<noteq> []) (map strip (split_sep [CHR 0x0A, CHR 0x0A] text)) \<and>
   format_paragraph_for_latex paragraph = emphasize (concat (map escape_char paragraph)) \<and>
   generate_template_notes res text title =
     (case latex_template res of
        None \<Rightarrow> Inl OSError
      | Some template \<Rightarrow>
          py_format (template_fields title (today res)
            (concat (map (\<lambda>i. [CHR 0x5C] @ ''section{Topic '' @ digits (Suc i) @ ''}'' @ [CHR 0x0A] @
                              emphasize (concat (map escape_char (template_paragraphs text ! i))) @
                              [CHR 0x0A, CHR 0x0A])
                       [0..<min 5 (length (template_paragraphs text))]))) template)"
proof (intro conjI)
  show "template_paragraphs text =
     filter (\<lambda>b. b \<noteq> []) (map strip (split_sep [CHR 0x0A, CHR 0x0A] text))"
    by (rule template_paragraphs_blocks)
  show "format_paragraph_for_latex paragraph = emphasize (concat (map escape_char paragraph))"
    by (rule format_paragraph_emphasize)
  show "generate_template_notes res text title =
     (case latex_template res of
        None \<Rightarrow> Inl OSError
      | Some template \<Rightarrow>
          py_format (template_fields title (today res)
            (concat (map (\<lambda>i. [CHR 0x5C] @ ''section{Topic '' @ digits (Suc i) @ ''}'' @ [CHR 0x0A] @
                              emphasize (concat (map escape_char (template_paragraphs text ! i))) @
                              [CHR 0x0A, CHR 0x0A])
                       [0..<min 5 (length (template_paragraphs text))]))) template)"
    unfolding generate_template_notes_def Let_def template_body_take ..
qed

theorem template_fallback_sections_witness:
  "generate_template_notes
     \<lparr>prompt_template = None, latex_template = Some ''{title}:{body}'', today = ''January 01, 2025''\<rparr>
     ''A & b.\<newline>\<newline>  \<newline>\<newline>The KEY idea_1.\<newline>\<newline>c\<newline>\<newline>d\<newline>\<newline>e\<newline>\<newline>f'' ''T'' =
   Inr (''T:'' @ [CHR 0x5C] @ ''section{Topic 1}\<newline>A '' @ [CHR 0x5C] @ ''& b.\<newline>\<newline>'' @
        [CHR 0x5C] @ ''section{Topic 2}\<newline>The '' @ [CHR 0x5C] @ ''textbf{KEY} idea'' @ [CHR 0x5C] @ ''_1.\<newline>\<newline>'' @
        [CHR 0x5C] @ ''section{Topic 3}\<newline>c\<newline>\<newline>'' @
        [CHR 0x5C] @ ''section{Topic 4}\<newline>d\<newline>\<newline>'' @
        [CHR 0x5C] @ ''section{Topic 5}\<newline>e\<newline>\<newline>'')"
proof -
  let ?res = "\<lparr>prompt_template = None, latex_template = Some ''{title}:{body}'',
    today = ''January 01, 2025''\<rparr>"
  let ?text = "''A & b.\<newline>\<newline>  \<newline>\<newline>The KEY idea_1.\<newline>\<newline>c\<newline>\<newline>d\<newline>\<newline>e\<newline>\<newline>f''"
  have "(case latex_template ?res of
        None \<Rightarrow> Inl OSError
      | Some template \<Rightarrow>
          py_format (template_fields ''T'' (today ?res)
            (concat (map (\<lambda>i. [CHR 0x5C] @ ''section{Topic '' @ digits (Suc i) @ ''}'' @ [CHR 0x0A] @
                              emphasize (concat (map escape_char (template_paragraphs ?text ! i))) @
                              [CHR 0x0A, CHR 0x0A])
                       [0..<min 5 (length (template_paragraphs ?text))]))) template) =
   Inr (''T:'' @ [CHR 0x5C] @ ''section{Topic 1}\<newline>A '' @ [CHR 0x5C] @ ''& b.\<newline>\<newline>'' @
        [CHR 0x5C] @ ''section{Topic 2}\<newline>The '' @ [CHR 0x5C] @ ''textbf{KEY} idea'' @ [CHR 0x5C] @ ''_1.\<newline>\<newline>'' @
        [CHR 0x5C] @ ''section{Topic 3}\<newline>c\<newline>\<newline>'' @
        [CHR 0x5C] @ ''section{Topic 4}\<newline>d\<newline>\<newline>'' @
        [CHR 0x5C] @ ''section{Topic 5}\<newline>e\<newline>\<newline>'')"
    by code_simp
  with template_fallback_sections [of ?text "[]" ?res "''T''"] show ?thesis
    by (simp only:)
qed

end
